theory Spec2Isabelle
  imports Main "HOL-Library.Word" "HOL-Library.Sublist"
begin

section \<open>The worker wrapper (package goroutine)\<close>

subsection \<open>Workers\<close>

text \<open>
  Modelled from the spec: the interfaces \<^verbatim>\<open>GoroutineWorker\<close>,
  \<^verbatim>\<open>GoroutineExtendedWorker\<close> and \<^verbatim>\<open>GoroutineInterruptable\<close> are declared in a file
  that is not among the sources; the wrapper and the tests use them, and the
  specification lists their methods. A \<^verbatim>\<open>GoroutineWorker\<close> is an interface value: an
  object with its own state \<open>'ws\<close> and the methods \<^verbatim>\<open>Job\<close> and \<^verbatim>\<open>Ready\<close>. The
  wrapper probes two further interfaces with a type assertion:
  \<^verbatim>\<open>GoroutineExtendedWorker\<close> (methods \<^verbatim>\<open>Initialize\<close> and \<^verbatim>\<open>Terminate\<close>) and
  \<^verbatim>\<open>GoroutineInterruptable\<close> (method \<^verbatim>\<open>Interrupt\<close>). A method is a function on the
  worker's state; an interface the worker does not implement is \<open>None\<close>. Job inputs
  and results are \<^verbatim>\<open>interface{}\<close> values, the type \<open>'a\<close>. A method call is one step
  of the model: it is assumed to return.
\<close>

record ('ws, 'a) GoroutineWorker =
  Job :: "'a \<Rightarrow> 'ws \<Rightarrow> 'a \<times> 'ws"
  Ready :: "'ws \<Rightarrow> bool \<times> 'ws"
  Extended :: "(('ws \<Rightarrow> 'ws) \<times> ('ws \<Rightarrow> 'ws)) option"
  Interruptable :: "('ws \<Rightarrow> 'ws) option"

subsection \<open>The wrapper and what runs around it\<close>

text \<open>An unbuffered channel holds no value: it is nil, open or closed.\<close>

datatype chan = ChanNil | ChanOpen | ChanClosed

text \<open>
  The places of \<^verbatim>\<open>Loop\<close> (lines 16 to 44 of the wrapper's file): the statement the
  goroutine executes next.
\<close>

datatype 'a loop_pc =
    NotStarted
  | AtReady1          \<comment> \<open>line 20: the condition \<^verbatim>\<open>!wrapper.worker.Ready()\<close>\<close>
  | AtLoad1           \<comment> \<open>line 22: \<^verbatim>\<open>atomic.LoadUint32(&wrapper.poolOpen) == 0\<close>\<close>
  | AtSleep1          \<comment> \<open>line 25\<close>
  | AtSendReady1      \<comment> \<open>line 28: \<^verbatim>\<open>wrapper.readyChan <- 1\<close>\<close>
  | AtRange           \<comment> \<open>line 30: \<^verbatim>\<open>for data := range wrapper.jobChan\<close>\<close>
  | AtJob 'a          \<comment> \<open>line 31: the call \<^verbatim>\<open>wrapper.worker.Job(data)\<close>\<close>
  | AtSendOutput 'a   \<comment> \<open>line 31: the send on \<^verbatim>\<open>outputChan\<close>\<close>
  | AtReady2          \<comment> \<open>line 32\<close>
  | AtLoad2           \<comment> \<open>line 33\<close>
  | AtSleep2          \<comment> \<open>line 36\<close>
  | AtSendReady2      \<comment> \<open>line 38\<close>
  | AtCloseReady      \<comment> \<open>line 41\<close>
  | AtCloseOutput     \<comment> \<open>line 42\<close>
  | Exited

text \<open>
  Modelled from the spec: the pool manager, which owns the wrappers and calls their
  methods, is not among the sources. By the lifecycle the specification gives, the
  owner of a wrapper calls \<^verbatim>\<open>Open\<close>, later \<^verbatim>\<open>Close\<close>, then \<^verbatim>\<open>Join\<close>, once each and
  in this order. \<^verbatim>\<open>Close\<close> is two statements and \<^verbatim>\<open>Join\<close> a loop of two receives,
  so the owner has places of its own. What the manager's dispatchers do with the three
  channels is left free: any goroutine may receive a ready signal, send a job or
  receive a result whenever the loop stands at the matching operation, and
  \<^verbatim>\<open>Interrupt\<close> may be called at any moment.
\<close>

datatype owner_pc =
    Idle               \<comment> \<open>constructed, \<^verbatim>\<open>Open\<close> not yet called\<close>
  | Opened             \<comment> \<open>\<^verbatim>\<open>Open\<close> has returned\<close>
  | AtMarkClosed       \<comment> \<open>in \<^verbatim>\<open>Close\<close>, line 65, after \<^verbatim>\<open>close(wrapper.jobChan)\<close>\<close>
  | AtJoinReady        \<comment> \<open>\<^verbatim>\<open>Join\<close>, line 71: the receive on \<^verbatim>\<open>readyChan\<close>\<close>
  | AtJoinOutput bool  \<comment> \<open>\<^verbatim>\<open>Join\<close>, line 72, holding \<^verbatim>\<open>readyOpen\<close>\<close>
  | AtTerminate        \<comment> \<open>\<^verbatim>\<open>Join\<close>, line 78: the drain loop is left\<close>
  | Joined             \<comment> \<open>\<^verbatim>\<open>Join\<close> has returned\<close>

text \<open>What happened, in the order it happened.\<close>

datatype 'a event =
    EvInitialize                \<comment> \<open>the worker's \<^verbatim>\<open>Initialize\<close> was called\<close>
  | EvTerminate                 \<comment> \<open>the worker's \<^verbatim>\<open>Terminate\<close> was called\<close>
  | EvInterrupt                 \<comment> \<open>the worker's \<^verbatim>\<open>Interrupt\<close> was called\<close>
  | EvLoopStart                 \<comment> \<open>\<^verbatim>\<open>go wrapper.Loop()\<close>\<close>
  | EvReady bool                \<comment> \<open>the worker's \<^verbatim>\<open>Ready\<close> was called and returned this\<close>
  | EvLoadOpen "32 word"        \<comment> \<open>the loop loaded this value of \<^verbatim>\<open>poolOpen\<close>\<close>
  | EvSleep
  | EvSendReady                 \<comment> \<open>the loop's send on \<^verbatim>\<open>readyChan\<close> was received\<close>
  | EvRecvJob 'a                \<comment> \<open>the loop received this input from \<^verbatim>\<open>jobChan\<close>\<close>
  | EvJobChanClosed             \<comment> \<open>the range over \<^verbatim>\<open>jobChan\<close> found it closed\<close>
  | EvJob 'a 'a                 \<comment> \<open>the worker's \<^verbatim>\<open>Job\<close> was called on an input and returned a result\<close>
  | EvSendOutput 'a             \<comment> \<open>the loop's send of this result on \<^verbatim>\<open>outputChan\<close> was received\<close>
  | EvCloseReady                \<comment> \<open>the loop closed \<^verbatim>\<open>readyChan\<close>\<close>
  | EvCloseOutput               \<comment> \<open>the loop closed \<^verbatim>\<open>outputChan\<close>\<close>
  | EvCloseJobChan              \<comment> \<open>\<^verbatim>\<open>Close\<close> closed \<^verbatim>\<open>jobChan\<close>\<close>
  | EvMarkClosed                \<comment> \<open>\<^verbatim>\<open>Close\<close> stored 0 in \<^verbatim>\<open>poolOpen\<close>\<close>
  | EvJoinRecvReady bool        \<comment> \<open>\<^verbatim>\<open>Join\<close> received from \<^verbatim>\<open>readyChan\<close>: \<^verbatim>\<open>readyOpen\<close>\<close>
  | EvJoinRecvOutput bool       \<comment> \<open>\<^verbatim>\<open>Join\<close> received from \<^verbatim>\<open>outputChan\<close>: \<^verbatim>\<open>outputOpen\<close>\<close>
  | EvJoinDrained               \<comment> \<open>\<^verbatim>\<open>Join\<close> left its drain loop\<close>

text \<open>
  The struct \<^verbatim>\<open>workerWrapper\<close> (field \<open>worker\<close> is the state of the worker object it
  points to), and with it the places of the loop goroutine and of the owner, and the
  history.
\<close>

record 'ws workerWrapper =
  readyChan :: chan
  jobChan :: chan
  outputChan :: chan
  poolOpen :: "32 word"
  worker :: 'ws

record ('ws, 'a) wsys = "'ws workerWrapper" +
  pc :: "'a loop_pc"
  owner :: owner_pc
  trace :: "'a event list"

definition constructed :: "'ws \<Rightarrow> ('ws, 'a) wsys" where
  "constructed ws =
     \<lparr>readyChan = ChanNil, jobChan = ChanNil, outputChan = ChanNil, poolOpen = 0,
      worker = ws, pc = NotStarted, owner = Idle, trace = []\<rparr>"

subsection \<open>The methods of the wrapper\<close>

text \<open>
  \<^verbatim>\<open>Open\<close> (lines 46 to 58). Nothing else can touch the wrapper before the goroutine
  is started, so the whole method is one step.
\<close>

definition wrapper_Open ::
  "('ws, 'a) GoroutineWorker \<Rightarrow> ('ws, 'a) wsys \<Rightarrow> ('ws, 'a) wsys option" where
  "wrapper_Open w s =
     (if owner s \<noteq> Idle then None
      else
        let s1 = (case Extended w of
                    Some (initialize, terminate) \<Rightarrow>
                      s\<lparr>worker := initialize (worker s), trace := trace s @ [EvInitialize]\<rparr>
                  | None \<Rightarrow> s)
        in Some (s1\<lparr>readyChan := ChanOpen, jobChan := ChanOpen, outputChan := ChanOpen,
                     poolOpen := 1, pc := AtReady1, owner := Opened,
                     trace := trace s1 @ [EvLoopStart]\<rparr>))"

text \<open>\<^verbatim>\<open>Close\<close>, line 62: \<^verbatim>\<open>close(wrapper.jobChan)\<close>.\<close>

definition wrapper_Close_jobChan :: "('ws, 'a) wsys \<Rightarrow> ('ws, 'a) wsys option" where
  "wrapper_Close_jobChan s =
     (if owner s = Opened
      then Some (s\<lparr>jobChan := ChanClosed, owner := AtMarkClosed,
                   trace := trace s @ [EvCloseJobChan]\<rparr>)
      else None)"

text \<open>\<^verbatim>\<open>Close\<close>, line 65: \<^verbatim>\<open>atomic.SwapUint32(&wrapper.poolOpen, uint32(0))\<close>.\<close>

definition wrapper_Close_mark :: "('ws, 'a) wsys \<Rightarrow> ('ws, 'a) wsys option" where
  "wrapper_Close_mark s =
     (if owner s = AtMarkClosed
      then Some (s\<lparr>poolOpen := 0, owner := AtJoinReady, trace := trace s @ [EvMarkClosed]\<rparr>)
      else None)"

text \<open>
  \<^verbatim>\<open>Interrupt\<close> (lines 83 to 87): callable at any moment, from any goroutine.
\<close>

definition wrapper_Interrupt ::
  "('ws, 'a) GoroutineWorker \<Rightarrow> ('ws, 'a) wsys \<Rightarrow> ('ws, 'a) wsys" where
  "wrapper_Interrupt w s =
     (case Interruptable w of
        Some interrupt \<Rightarrow> s\<lparr>worker := interrupt (worker s), trace := trace s @ [EvInterrupt]\<rparr>
      | None \<Rightarrow> s)"

text \<open>
  One statement of \<^verbatim>\<open>Loop\<close> that needs no partner: a call of the worker, the load of
  \<^verbatim>\<open>poolOpen\<close>, the sleep, the range finding \<^verbatim>\<open>jobChan\<close> closed, the two closes.
  At a send, and at the range over an open \<^verbatim>\<open>jobChan\<close>, the goroutine is blocked
  (\<open>None\<close>) until a partner arrives.
\<close>

definition Loop_step ::
  "('ws, 'a) GoroutineWorker \<Rightarrow> ('ws, 'a) wsys \<Rightarrow> ('ws, 'a) wsys option" where
  "Loop_step w s =
     (case pc s of
        AtReady1 \<Rightarrow>
          (case Ready w (worker s) of
             (b, ws') \<Rightarrow>
               Some (s\<lparr>worker := ws', pc := (if b then AtSendReady1 else AtLoad1),
                       trace := trace s @ [EvReady b]\<rparr>))
      | AtLoad1 \<Rightarrow>
          Some (s\<lparr>pc := (if poolOpen s = 0 then AtSendReady1 else AtSleep1),
                  trace := trace s @ [EvLoadOpen (poolOpen s)]\<rparr>)
      | AtSleep1 \<Rightarrow> Some (s\<lparr>pc := AtReady1, trace := trace s @ [EvSleep]\<rparr>)
      | AtRange \<Rightarrow>
          (if jobChan s = ChanClosed
           then Some (s\<lparr>pc := AtCloseReady, trace := trace s @ [EvJobChanClosed]\<rparr>)
           else None)
      | AtJob d \<Rightarrow>
          (case Job w d (worker s) of
             (r, ws') \<Rightarrow>
               Some (s\<lparr>worker := ws', pc := AtSendOutput r, trace := trace s @ [EvJob d r]\<rparr>))
      | AtReady2 \<Rightarrow>
          (case Ready w (worker s) of
             (b, ws') \<Rightarrow>
               Some (s\<lparr>worker := ws', pc := (if b then AtSendReady2 else AtLoad2),
                       trace := trace s @ [EvReady b]\<rparr>))
      | AtLoad2 \<Rightarrow>
          Some (s\<lparr>pc := (if poolOpen s = 0 then AtSendReady2 else AtSleep2),
                  trace := trace s @ [EvLoadOpen (poolOpen s)]\<rparr>)
      | AtSleep2 \<Rightarrow> Some (s\<lparr>pc := AtReady2, trace := trace s @ [EvSleep]\<rparr>)
      | AtCloseReady \<Rightarrow>
          Some (s\<lparr>readyChan := ChanClosed, pc := AtCloseOutput,
                  trace := trace s @ [EvCloseReady]\<rparr>)
      | AtCloseOutput \<Rightarrow>
          Some (s\<lparr>outputChan := ChanClosed, pc := Exited, trace := trace s @ [EvCloseOutput]\<rparr>)
      | _ \<Rightarrow> None)"

text \<open>
  The loop's three channel operations that need a partner. \<open>ready_received\<close>: some
  goroutine receives from \<^verbatim>\<open>readyChan\<close> while the loop stands at its send (line 28
  or 38). \<open>job_sent\<close>: some goroutine sends \<open>d\<close> on the open \<^verbatim>\<open>jobChan\<close> while the
  loop stands at the range (a send on a closed channel panics in the sender and
  delivers nothing). \<open>output_received\<close>: some goroutine receives from
  \<^verbatim>\<open>outputChan\<close> while the loop stands at its send (line 31).
\<close>

definition ready_received :: "('ws, 'a) wsys \<Rightarrow> ('ws, 'a) wsys option" where
  "ready_received s =
     (if pc s = AtSendReady1 \<or> pc s = AtSendReady2
      then Some (s\<lparr>pc := AtRange, trace := trace s @ [EvSendReady]\<rparr>)
      else None)"

definition job_sent :: "'a \<Rightarrow> ('ws, 'a) wsys \<Rightarrow> ('ws, 'a) wsys option" where
  "job_sent d s =
     (if pc s = AtRange \<and> jobChan s = ChanOpen
      then Some (s\<lparr>pc := AtJob d, trace := trace s @ [EvRecvJob d]\<rparr>)
      else None)"

definition output_received :: "('ws, 'a) wsys \<Rightarrow> ('ws, 'a) wsys option" where
  "output_received s =
     (case pc s of
        AtSendOutput r \<Rightarrow> Some (s\<lparr>pc := AtReady2, trace := trace s @ [EvSendOutput r]\<rparr>)
      | _ \<Rightarrow> None)"

text \<open>
  \<^verbatim>\<open>Join\<close>, line 71: \<^verbatim>\<open>_, readyOpen := <-wrapper.readyChan\<close>. On a closed channel the
  receive returns at once with \<^verbatim>\<open>readyOpen = false\<close>; on an open one it is the partner
  of the loop's send, and blocks when the loop is elsewhere.
\<close>

definition Join_recv_ready :: "('ws, 'a) wsys \<Rightarrow> ('ws, 'a) wsys option" where
  "Join_recv_ready s =
     (if owner s \<noteq> AtJoinReady then None
      else if readyChan s = ChanClosed
      then Some (s\<lparr>owner := AtJoinOutput False, trace := trace s @ [EvJoinRecvReady False]\<rparr>)
      else
        (case ready_received s of
           Some s' \<Rightarrow>
             Some (s'\<lparr>owner := AtJoinOutput True, trace := trace s' @ [EvJoinRecvReady True]\<rparr>)
         | None \<Rightarrow> None))"

text \<open>
  \<^verbatim>\<open>Join\<close>, lines 72 to 75: \<^verbatim>\<open>_, outputOpen := <-wrapper.outputChan\<close>, then the test
  \<^verbatim>\<open>!readyOpen && !outputOpen\<close> that leaves the drain loop.
\<close>

definition Join_recv_output :: "('ws, 'a) wsys \<Rightarrow> ('ws, 'a) wsys option" where
  "Join_recv_output s =
     (case owner s of
        AtJoinOutput readyOpen \<Rightarrow>
          if outputChan s = ChanClosed
          then
            (if \<not> readyOpen
             then Some (s\<lparr>owner := AtTerminate,
                          trace := trace s @ [EvJoinRecvOutput False, EvJoinDrained]\<rparr>)
             else Some (s\<lparr>owner := AtJoinReady, trace := trace s @ [EvJoinRecvOutput False]\<rparr>))
          else
            (case output_received s of
               Some s' \<Rightarrow>
                 Some (s'\<lparr>owner := AtJoinReady, trace := trace s' @ [EvJoinRecvOutput True]\<rparr>)
             | None \<Rightarrow> None)
      | _ \<Rightarrow> None)"

text \<open>\<^verbatim>\<open>Join\<close>, lines 78 to 80.\<close>

definition Join_terminate ::
  "('ws, 'a) GoroutineWorker \<Rightarrow> ('ws, 'a) wsys \<Rightarrow> ('ws, 'a) wsys option" where
  "Join_terminate w s =
     (if owner s \<noteq> AtTerminate then None
      else
        (case Extended w of
           Some (initialize, terminate) \<Rightarrow>
             Some (s\<lparr>worker := terminate (worker s), owner := Joined,
                     trace := trace s @ [EvTerminate]\<rparr>)
         | None \<Rightarrow> Some (s\<lparr>owner := Joined\<rparr>)))"

subsection \<open>Runs\<close>

text \<open>
  A schedule names, move by move, which goroutine goes next. A move that is blocked, or
  out of the owner's order, makes the schedule impossible (\<open>None\<close>).
\<close>

datatype 'a move =
    MvOpen | MvCloseJobChan | MvMarkClosed
  | MvJoinRecvReady | MvJoinRecvOutput | MvJoinTerminate
  | MvLoop
  | MvTakeReady | MvGiveJob 'a | MvTakeOutput
  | MvInterrupt

fun step ::
  "('ws, 'a) GoroutineWorker \<Rightarrow> 'a move \<Rightarrow> ('ws, 'a) wsys \<Rightarrow> ('ws, 'a) wsys option" where
  "step w MvOpen s = wrapper_Open w s"
| "step w MvCloseJobChan s = wrapper_Close_jobChan s"
| "step w MvMarkClosed s = wrapper_Close_mark s"
| "step w MvJoinRecvReady s = Join_recv_ready s"
| "step w MvJoinRecvOutput s = Join_recv_output s"
| "step w MvJoinTerminate s = Join_terminate w s"
| "step w MvLoop s = Loop_step w s"
| "step w MvTakeReady s = ready_received s"
| "step w (MvGiveJob d) s = job_sent d s"
| "step w MvTakeOutput s = output_received s"
| "step w MvInterrupt s = Some (wrapper_Interrupt w s)"

fun run ::
  "('ws, 'a) GoroutineWorker \<Rightarrow> 'a move list \<Rightarrow> ('ws, 'a) wsys \<Rightarrow> ('ws, 'a) wsys option" where
  "run w [] s = Some s"
| "run w (m # ms) s = (case step w m s of None \<Rightarrow> None | Some s' \<Rightarrow> run w ms s')"

text \<open>Two workers to run: one that doubles and is always ready, one that never is.\<close>

definition doubler :: "(unit, int) GoroutineWorker" where
  "doubler = \<lparr>Job = (\<lambda>d ws. (2 * d, ws)), Ready = (\<lambda>ws. (True, ws)),
              Extended = Some (id, id), Interruptable = Some id\<rparr>"

definition sleeper :: "(unit, int) GoroutineWorker" where
  "sleeper = \<lparr>Job = (\<lambda>d ws. (d, ws)), Ready = (\<lambda>ws. (False, ws)),
              Extended = None, Interruptable = None\<rparr>"


text \<open>
  A worker that writes down every call it gets, in order: 1 for \<^verbatim>\<open>Initialize\<close>, 2 for
  \<^verbatim>\<open>Terminate\<close>, 3 for \<^verbatim>\<open>Ready\<close>, 4 for \<^verbatim>\<open>Job\<close>, 5 for \<^verbatim>\<open>Interrupt\<close>. It is
  always ready and doubles its input.
\<close>

definition recorder :: "(nat list, int) GoroutineWorker" where
  "recorder = \<lparr>Job = (\<lambda>d ws. (2 * d, ws @ [4])), Ready = (\<lambda>ws. (True, ws @ [3])),
               Extended = Some ((\<lambda>ws. ws @ [1]), (\<lambda>ws. ws @ [2])),
               Interruptable = Some (\<lambda>ws. ws @ [5])\<rparr>"

text \<open>
  Schedules. \<open>lifecycle\<close>: open, two jobs (with an interrupt in between), close
  and join. \<open>shutdown_idle\<close>: the pool is closed while the worker still polls in the
  warming-up state. \<open>shutdown_after_job\<close>: the pool is closed while the worker polls
  after a job.
\<close>

definition lifecycle :: "int move list" where
  "lifecycle =
     [MvOpen, MvLoop, MvTakeReady, MvGiveJob 10, MvLoop, MvTakeOutput, MvLoop, MvTakeReady,
      MvGiveJob 21, MvInterrupt, MvLoop, MvTakeOutput, MvLoop, MvCloseJobChan, MvMarkClosed,
      MvJoinRecvReady, MvLoop, MvLoop, MvLoop, MvJoinRecvOutput, MvJoinRecvReady,
      MvJoinRecvOutput, MvJoinTerminate]"



text \<open>
  \<open>exit_before_join\<close>: the loop has left before \<^verbatim>\<open>Close\<close> returns. \<open>leaving\<close>: the
  range has just found \<^verbatim>\<open>jobChan\<close> closed. \<open>mid_drain\<close>: \<^verbatim>\<open>Join\<close> has received the
  last ready signal, and the loop has left before the second receive of that round.
\<close>

definition exit_before_join :: "int move list" where
  "exit_before_join =
     [MvOpen, MvLoop, MvTakeReady, MvCloseJobChan, MvLoop, MvLoop, MvLoop, MvMarkClosed]"

definition leaving :: "int move list" where
  "leaving = [MvOpen, MvLoop, MvTakeReady, MvCloseJobChan, MvLoop]"

definition mid_drain :: "int move list" where
  "mid_drain =
     [MvOpen, MvLoop, MvCloseJobChan, MvMarkClosed, MvJoinRecvReady, MvLoop, MvLoop, MvLoop]"


text \<open>\<open>until_drained\<close>: \<open>lifecycle\<close> up to the moment \<^verbatim>\<open>Join\<close> has left its drain loop.\<close>

definition until_drained :: "int move list" where
  "until_drained =
     [MvOpen, MvLoop, MvTakeReady, MvGiveJob 10, MvLoop, MvTakeOutput, MvLoop, MvTakeReady,
      MvGiveJob 21, MvInterrupt, MvLoop, MvTakeOutput, MvLoop, MvCloseJobChan, MvMarkClosed,
      MvJoinRecvReady, MvLoop, MvLoop, MvLoop, MvJoinRecvOutput, MvJoinRecvReady,
      MvJoinRecvOutput]"

subsection \<open>What a history can be asked\<close>

text \<open>
  Which job is in flight, read off a history: none, one that was received and is being
  worked on, or one whose result waits to be sent. \<open>Violated\<close> when the history
  receives a second job before the result of the first is sent, computes without a
  received job, or sends a result that was not computed.
\<close>

datatype 'a flight = NoJob | Received 'a | Computed 'a | Violated

definition flight_step :: "'a flight \<Rightarrow> 'a event \<Rightarrow> 'a flight" where
  "flight_step st e =
     (case e of
        EvRecvJob d \<Rightarrow> (if st = NoJob then Received d else Violated)
      | EvJob d r \<Rightarrow> (if st = Received d then Computed r else Violated)
      | EvSendOutput r \<Rightarrow> (if st = Computed r then NoJob else Violated)
      | _ \<Rightarrow> st)"

definition flight :: "'a event list \<Rightarrow> 'a flight" where
  "flight es = foldl flight_step NoJob es"

fun flight_at :: "'a loop_pc \<Rightarrow> 'a flight" where
  "flight_at (AtJob d) = Received d"
| "flight_at (AtSendOutput r) = Computed r"
| "flight_at _ = NoJob"

text \<open>What the most recent call of \<^verbatim>\<open>Ready\<close> in a history returned, if there was one.\<close>

fun most_recent_ready :: "'a event list \<Rightarrow> bool option" where
  "most_recent_ready [] = None"
| "most_recent_ready (e # es) =
     (case most_recent_ready es of
        Some b \<Rightarrow> Some b
      | None \<Rightarrow> (case e of EvReady b \<Rightarrow> Some b | _ \<Rightarrow> None))"

text \<open>
  The same, kept while reading the history from its start (\<open>False\<close> before the first
  call), and lost (\<open>None\<close>) at a call of \<^verbatim>\<open>Job\<close> that comes when it is not true.
\<close>

definition ready_step :: "bool option \<Rightarrow> 'a event \<Rightarrow> bool option" where
  "ready_step st e =
     (case st of
        None \<Rightarrow> None
      | Some b \<Rightarrow>
          (case e of
             EvReady b' \<Rightarrow> Some b'
           | EvJob d r \<Rightarrow> (if b then Some b else None)
           | _ \<Rightarrow> Some b))"

definition ready_kept :: "'a event list \<Rightarrow> bool option" where
  "ready_kept es = foldl ready_step (Some False) es"







text \<open>
  The calls of the worker's methods that a history records, applied in order to a
  state of the worker.
\<close>

fun call :: "('ws, 'a) GoroutineWorker \<Rightarrow> 'a event \<Rightarrow> 'ws \<Rightarrow> 'ws" where
  "call w EvInitialize ws = (case Extended w of Some (i, t) \<Rightarrow> i ws | None \<Rightarrow> ws)"
| "call w EvTerminate ws = (case Extended w of Some (i, t) \<Rightarrow> t ws | None \<Rightarrow> ws)"
| "call w EvInterrupt ws = (case Interruptable w of Some f \<Rightarrow> f ws | None \<Rightarrow> ws)"
| "call w (EvReady b) ws = snd (Ready w ws)"
| "call w (EvJob d r) ws = snd (Job w d ws)"
| "call w _ ws = ws"

definition replay :: "('ws, 'a) GoroutineWorker \<Rightarrow> 'ws \<Rightarrow> 'a event list \<Rightarrow> 'ws" where
  "replay w ws es = foldl (\<lambda>x e. call w e x) ws es"


text \<open>The part of a history before the first occurrence of an event.\<close>

definition before :: "'a event \<Rightarrow> 'a event list \<Rightarrow> 'a event list" where
  "before e es = takeWhile (\<lambda>x. x \<noteq> e) es"

subsection \<open>Invariants of the runs\<close>

text \<open>
  How the channels and the flag follow from where the owner and the loop stand:
  \<^verbatim>\<open>Open\<close> makes the channels and stores 1 before it starts the loop, \<^verbatim>\<open>Close\<close>
  closes \<^verbatim>\<open>jobChan\<close> before it stores 0, and only the loop closes the other two.
\<close>

fun loop_gone :: "'a loop_pc \<Rightarrow> bool" where
  "loop_gone AtCloseReady = True"
| "loop_gone AtCloseOutput = True"
| "loop_gone Exited = True"
| "loop_gone _ = False"

definition coherent :: "('ws, 'a) wsys \<Rightarrow> bool" where
  "coherent s =
     (jobChan s = (case owner s of Idle \<Rightarrow> ChanNil | Opened \<Rightarrow> ChanOpen | _ \<Rightarrow> ChanClosed)
      \<and> readyChan s =
          (if owner s = Idle then ChanNil
           else if pc s = AtCloseOutput \<or> pc s = Exited then ChanClosed else ChanOpen)
      \<and> outputChan s =
          (if owner s = Idle then ChanNil else if pc s = Exited then ChanClosed else ChanOpen)
      \<and> poolOpen s = (case owner s of Idle \<Rightarrow> 0 | Opened \<Rightarrow> 1 | AtMarkClosed \<Rightarrow> 1 | _ \<Rightarrow> 0)
      \<and> (owner s = Idle) = (pc s = NotStarted)
      \<and> (if owner s = Opened then \<not> loop_gone (pc s)
          else if owner s = AtTerminate \<or> owner s = Joined then pc s = Exited else True))"

definition inv_flight :: "('ws, 'a) wsys \<Rightarrow> bool" where
  "inv_flight s = (flight (trace s) = flight_at (pc s))"

definition inv_ready :: "('ws, 'a) wsys \<Rightarrow> bool" where
  "inv_ready s =
     (case ready_kept (trace s) of
        None \<Rightarrow> False
      | Some b \<Rightarrow>
          (case pc s of
             AtJob d \<Rightarrow> b
           | AtSendReady1 \<Rightarrow> b \<or> jobChan s = ChanClosed
           | AtSendReady2 \<Rightarrow> b \<or> jobChan s = ChanClosed
           | AtRange \<Rightarrow> b \<or> jobChan s = ChanClosed
           | _ \<Rightarrow> True))"


definition inv_life :: "('ws, 'a) wsys \<Rightarrow> bool" where
  "inv_life s =
     (count_list (trace s) EvInitialize = (if owner s = Idle then 0 else 1)
      \<and> (if owner s = Idle then set (trace s) \<subseteq> {EvInterrupt}
          else set (before EvInitialize (trace s)) \<subseteq> {EvInterrupt})
      \<and> count_list (trace s) EvTerminate = (if owner s = Joined then 1 else 0)
      \<and> (owner s = Idle \<or> owner s = Opened \<or> EvCloseJobChan \<in> set (trace s))
      \<and> (owner s = Idle \<or> owner s = Opened \<or> owner s = AtMarkClosed
          \<or> EvMarkClosed \<in> set (trace s))
      \<and> (if pc s = AtCloseOutput \<or> pc s = Exited
          then EvCloseReady \<in> set (trace s) else True)
      \<and> (if pc s = Exited then EvCloseOutput \<in> set (trace s) else True)
      \<and> (if owner s = AtTerminate \<or> owner s = Joined
          then EvJoinDrained \<in> set (trace s) else True)
      \<and> (if owner s = Joined
          then {EvCloseJobChan, EvMarkClosed, EvCloseReady, EvCloseOutput, EvJoinDrained}
                 \<subseteq> set (before EvTerminate (trace s))
          else True))"


definition inv_calls :: "('ws, 'a) GoroutineWorker \<Rightarrow> 'ws \<Rightarrow> ('ws, 'a) wsys \<Rightarrow> bool" where
  "inv_calls w ws s = (worker s = replay w ws (trace s))"

section \<open>The connection pool (package tcpPool)\<close>

subsection \<open>Errors, connections, the world\<close>

text \<open>
  The error values the package makes, and \<open>ErrOther\<close> for any error that comes from
  outside (a factory, the \<^verbatim>\<open>Close\<close> of a connection).
\<close>

datatype error =
    ErrClosed               \<comment> \<open>\<^verbatim>\<open>ErrClosed\<close>, "pool is closed"\<close>
  | ErrNilConn              \<comment> \<open>"connection is nil. rejecting"\<close>
  | ErrInvalidCapacity      \<comment> \<open>"invalid capacity settings"\<close>
  | ErrFactoryFill error    \<comment> \<open>"factory is not able to fill the pool: %s"\<close>
  | ErrOther nat

text \<open>
  How a call ends: it returns, it panics, or it blocks for ever. The state a call
  leaves behind is given in every case.
\<close>

datatype 'r outcome = Returns 'r | Panics | Blocks

text \<open>
  A \<^verbatim>\<open>net.Conn\<close> is an interface value: nil (\<open>None\<close>) or a connection of type \<open>'c\<close>.
  The world outside the pool: the state the factory closure works on, what the
  \<^verbatim>\<open>Close\<close> of each connection answers, and the connections closed so far, oldest
  first.
\<close>

record ('c, 'w) world =
  fstate :: 'w
  closeErr :: "'c \<Rightarrow> error option"
  closedConns :: "'c list"

definition conn_Close :: "'c \<Rightarrow> ('c, 'w) world \<Rightarrow> error option \<times> ('c, 'w) world" where
  "conn_Close c wd = (closeErr wd c, wd\<lparr>closedConns := closedConns wd @ [c]\<rparr>)"

text \<open>
  A buffered channel of \<^verbatim>\<open>net.Conn\<close>: the values queued, oldest first, and the
  capacity it was made with. The struct \<^verbatim>\<open>channelPool\<close>: \<open>conns\<close> is \<open>None\<close> for the
  nil channel, \<open>factory\<close> is \<open>None\<close> for the nil function. The mutex is not modelled:
  the operations run one at a time. \<^verbatim>\<open>Close\<close> nils the field before it closes the
  channel, so the pool never holds a closed channel.
\<close>

record 'c connChan =
  buf :: "'c option list"
  capacity :: nat

record ('c, 'w) channelPool =
  conns :: "'c connChan option"
  factory :: "('w \<Rightarrow> ('c option \<times> error option) \<times> 'w) option"

text \<open>
  The struct \<^verbatim>\<open>PoolConn\<close>. Its pointer \<^verbatim>\<open>c\<close> to the pool is the pool the
  operations below are given.
\<close>

record 'c PoolConn =
  Conn :: "'c option"
  unusable :: bool

definition wrapConn :: "'c option \<Rightarrow> 'c PoolConn" where
  "wrapConn conn = \<lparr>Conn = conn, unusable = False\<rparr>"

definition MarkUnusable :: "'c PoolConn \<Rightarrow> 'c PoolConn" where
  "MarkUnusable x = x\<lparr>unusable := True\<rparr>"

subsection \<open>The operations\<close>

text \<open>\<^verbatim>\<open>getConns\<close> (lines 73 to 82): the field, read under the mutex.\<close>

definition getConns :: "('c, 'w) channelPool \<Rightarrow> 'c connChan option" where
  "getConns p = conns p"

text \<open>
  \<^verbatim>\<open>Get\<close> (lines 90 to 123). A call of the factory is assumed to return. The result is the pair the Go function returns: the
  connection (nil, or a pointer to a new \<^verbatim>\<open>PoolConn\<close>) and the error.
\<close>

definition Get ::
  "('c, 'w) channelPool \<Rightarrow> ('c, 'w) world \<Rightarrow>
     ('c PoolConn option \<times> error option) outcome \<times> ('c, 'w) channelPool \<times> ('c, 'w) world"
  where
  "Get p wd =
     (case getConns p of
        None \<Rightarrow> (Returns (None, Some ErrClosed), p, wd)
      | Some ch \<Rightarrow>
          (case buf ch of
             conn # rest \<Rightarrow>
               (if conn = None
                then (Returns (None, Some ErrClosed), p\<lparr>conns := Some (ch\<lparr>buf := rest\<rparr>)\<rparr>, wd)
                else (Returns (Some (wrapConn conn), None),
                      p\<lparr>conns := Some (ch\<lparr>buf := rest\<rparr>)\<rparr>, wd))
           | [] \<Rightarrow>
               (case factory p of
                  None \<Rightarrow> (Panics, p, wd)
                | Some f \<Rightarrow>
                    (case f (fstate wd) of
                       ((conn, err), fs') \<Rightarrow>
                         (case err of
                            Some e \<Rightarrow> (Returns (None, Some e), p, wd\<lparr>fstate := fs'\<rparr>)
                          | None \<Rightarrow>
                              (Returns (Some (wrapConn conn), None), p,
                               wd\<lparr>fstate := fs'\<rparr>))))))"

text \<open>\<^verbatim>\<open>put\<close> (lines 124 to 151).\<close>

definition put ::
  "'c option \<Rightarrow> ('c, 'w) channelPool \<Rightarrow> ('c, 'w) world \<Rightarrow>
     error option outcome \<times> ('c, 'w) channelPool \<times> ('c, 'w) world"
  where
  "put conn p wd =
     (case conn of
        None \<Rightarrow> (Returns (Some ErrNilConn), p, wd)
      | Some c \<Rightarrow>
          (case conns p of
             None \<Rightarrow> (case conn_Close c wd of (e, wd') \<Rightarrow> (Returns e, p, wd'))
           | Some ch \<Rightarrow>
               (if length (buf ch) < capacity ch
                then (Returns None, p\<lparr>conns := Some (ch\<lparr>buf := buf ch @ [conn]\<rparr>)\<rparr>, wd)
                else (case conn_Close c wd of (e, wd') \<Rightarrow> (Returns e, p, wd')))))"

text \<open>
  \<^verbatim>\<open>channelPool.Close\<close> (lines 153 to 169). The range over the closed channel
  takes the queued values in order and calls \<^verbatim>\<open>Close\<close> on each; on a nil value that
  call is a nil dereference.
\<close>

fun closeAll :: "'c option list \<Rightarrow> ('c, 'w) world \<Rightarrow> unit outcome \<times> ('c, 'w) world" where
  "closeAll [] wd = (Returns (), wd)"
| "closeAll (None # rest) wd = (Panics, wd)"
| "closeAll (Some c # rest) wd = closeAll rest (snd (conn_Close c wd))"

definition pool_Close ::
  "('c, 'w) channelPool \<Rightarrow> ('c, 'w) world \<Rightarrow>
     unit outcome \<times> ('c, 'w) channelPool \<times> ('c, 'w) world"
  where
  "pool_Close p wd =
     (case conns p of
        None \<Rightarrow> (Returns (), p\<lparr>conns := None, factory := None\<rparr>, wd)
      | Some ch \<Rightarrow>
          (case closeAll (buf ch) wd of
             (r, wd') \<Rightarrow> (r, p\<lparr>conns := None, factory := None\<rparr>, wd')))"

text \<open>\<^verbatim>\<open>Len\<close> (lines 171 to 173): \<^verbatim>\<open>len\<close> of a nil channel is 0.\<close>

definition Len :: "('c, 'w) channelPool \<Rightarrow> int" where
  "Len p = (case getConns p of None \<Rightarrow> 0 | Some ch \<Rightarrow> int (length (buf ch)))"

text \<open>\<^verbatim>\<open>PoolConn.Close\<close> (the second file, lines 11 to 27).\<close>

definition PoolConn_Close ::
  "'c PoolConn \<Rightarrow> ('c, 'w) channelPool \<Rightarrow> ('c, 'w) world \<Rightarrow>
     error option outcome \<times> ('c, 'w) channelPool \<times> ('c, 'w) world"
  where
  "PoolConn_Close x p wd =
     (if unusable x
      then
        (case Conn x of
           Some c \<Rightarrow> (case conn_Close c wd of (e, wd') \<Rightarrow> (Returns e, p, wd'))
         | None \<Rightarrow> (Returns None, p, wd))
      else put (Conn x) p wd)"

text \<open>
  \<^verbatim>\<open>NewChannelPool\<close> (lines 48 to 71). \<open>fill n\<close> is the loop of lines 61 to 68 with
  \<open>n\<close> rounds to go. The send of line 67 is a blocking send: on a full buffer it would
  wait for ever.
\<close>

fun fill ::
  "nat \<Rightarrow> ('c, 'w) channelPool \<Rightarrow> ('c, 'w) world \<Rightarrow>
     (('c, 'w) channelPool option \<times> error option) outcome \<times> ('c, 'w) world"
  where
  "fill 0 c wd = (Returns (Some c, None), wd)"
| "fill (Suc n) c wd =
     (case factory c of
        None \<Rightarrow> (Panics, wd)
      | Some f \<Rightarrow>
          (case f (fstate wd) of
             ((conn, err), fs') \<Rightarrow>
               (case err of
                  Some e \<Rightarrow>
                    (case pool_Close c (wd\<lparr>fstate := fs'\<rparr>) of
                       (Returns u, c', wd') \<Rightarrow> (Returns (None, Some (ErrFactoryFill e)), wd')
                     | (Panics, c', wd') \<Rightarrow> (Panics, wd')
                     | (Blocks, c', wd') \<Rightarrow> (Blocks, wd'))
                | None \<Rightarrow>
                    (case conns c of
                       None \<Rightarrow> (Blocks, wd\<lparr>fstate := fs'\<rparr>)
                     | Some ch \<Rightarrow>
                         (if length (buf ch) < capacity ch
                          then fill n (c\<lparr>conns := Some (ch\<lparr>buf := buf ch @ [conn]\<rparr>)\<rparr>)
                                 (wd\<lparr>fstate := fs'\<rparr>)
                          else (Blocks, wd\<lparr>fstate := fs'\<rparr>))))))"

definition NewChannelPool ::
  "int \<Rightarrow> int \<Rightarrow> ('w \<Rightarrow> ('c option \<times> error option) \<times> 'w) option \<Rightarrow> ('c, 'w) world \<Rightarrow>
     (('c, 'w) channelPool option \<times> error option) outcome \<times> ('c, 'w) world"
  where
  "NewChannelPool initialCap maxCap fac wd =
     (if initialCap < 0 \<or> maxCap \<le> 0 \<or> initialCap > maxCap
      then (Returns (None, Some ErrInvalidCapacity), wd)
      else fill (nat initialCap)
             \<lparr>conns = Some \<lparr>buf = [], capacity = nat maxCap\<rparr>, factory = fac\<rparr> wd)"

subsection \<open>Sequences of operations\<close>

text \<open>
  What a client can do to a pool, one call after the other. A call that panics leaves
  the state it had reached, and the next call goes on from there.
\<close>

datatype 'c pool_op = OpGet | OpRelease "'c PoolConn" | OpPut "'c option" | OpClose | OpLen

fun apply_op ::
  "'c pool_op \<Rightarrow> ('c, 'w) channelPool \<times> ('c, 'w) world \<Rightarrow>
     ('c, 'w) channelPool \<times> ('c, 'w) world"
  where
  "apply_op OpGet (p, wd) = snd (Get p wd)"
| "apply_op (OpRelease x) (p, wd) = snd (PoolConn_Close x p wd)"
| "apply_op (OpPut conn) (p, wd) = snd (put conn p wd)"
| "apply_op OpClose (p, wd) = snd (pool_Close p wd)"
| "apply_op OpLen (p, wd) = (p, wd)"

fun apply_ops ::
  "'c pool_op list \<Rightarrow> ('c, 'w) channelPool \<times> ('c, 'w) world \<Rightarrow>
     ('c, 'w) channelPool \<times> ('c, 'w) world"
  where
  "apply_ops [] st = st"
| "apply_ops (x # xs) st = apply_ops xs (apply_op x st)"

text \<open>
  A factory that numbers its connections, one that fails, one that hands out nil with
  a nil error the first time it is called and numbered connections after that; a quiet
  world; a pool of capacity 2 holding connection 5.
\<close>

definition counting :: "nat \<Rightarrow> (nat option \<times> error option) \<times> nat" where
  "counting n = ((Some n, None), Suc n)"



definition quiet :: "(nat, nat) world" where
  "quiet = \<lparr>fstate = 0, closeErr = (\<lambda>c. None), closedConns = []\<rparr>"

definition pool5 :: "(nat, nat) channelPool" where
  "pool5 = \<lparr>conns = Some \<lparr>buf = [Some 5], capacity = 2\<rparr>, factory = Some counting\<rparr>"

text \<open>The stored connections stay within the capacity \<open>m\<close>.\<close>

definition within :: "nat \<Rightarrow> ('c, 'w) channelPool \<Rightarrow> bool" where
  "within m p =
     (case conns p of None \<Rightarrow> True | Some ch \<Rightarrow> capacity ch = m \<and> length (buf ch) \<le> m)"

definition shut :: "('c, 'w) channelPool \<Rightarrow> bool" where
  "shut p = (conns p = None \<and> factory p = None)"

section \<open>Facts about the wrapper\<close>

lemma run_append:
  "run w (ms @ ns) s = (case run w ms s of None \<Rightarrow> None | Some s' \<Rightarrow> run w ns s')"
  by (induction ms arbitrary: s) (auto split: option.splits)

lemmas step_defs =
  wrapper_Open_def wrapper_Close_jobChan_def wrapper_Close_mark_def wrapper_Interrupt_def
  Loop_step_def ready_received_def job_sent_def output_received_def Join_recv_ready_def
  Join_recv_output_def Join_terminate_def

lemma pred_option_conj:
  "pred_option P x \<Longrightarrow> pred_option Q x \<Longrightarrow> pred_option (\<lambda>s. P s \<and> Q s) x"
  by (cases x) simp_all

lemma run_invariant:
  assumes "\<And>m s. P s \<Longrightarrow> pred_option P (step w m s)"
  shows "P s \<Longrightarrow> run w ms s = Some s' \<Longrightarrow> P s'"
proof (induction ms arbitrary: s)
  case Nil
  then show ?case by simp
next
  case (Cons m ms)
  from Cons.prems(2) obtain s1 where s1: "step w m s = Some s1" and r: "run w ms s1 = Some s'"
    by (auto split: option.splits)
  from assms [OF Cons.prems(1), of m] s1 have "P s1" by simp
  then show ?case using Cons.IH r by blast
qed

subsection \<open>The channels and the flag follow the owner and the loop\<close>

lemma coherent_constructed: "coherent (constructed ws)"
  by (simp add: coherent_def constructed_def)

lemma coherent_Loop_step: "coherent s \<Longrightarrow> pred_option coherent (Loop_step w s)"
  by (cases "pc s"; cases "owner s")
     (simp_all add: Loop_step_def coherent_def split: prod.splits)

lemma coherent_Open: "coherent s \<Longrightarrow> pred_option coherent (wrapper_Open w s)"
  by (cases "Extended w"; cases "owner s") (auto simp: wrapper_Open_def coherent_def)

lemma coherent_Close_jobChan: "coherent s \<Longrightarrow> pred_option coherent (wrapper_Close_jobChan s)"
  by (cases "pc s"; cases "owner s") (simp_all add: wrapper_Close_jobChan_def coherent_def)

lemma coherent_Close_mark: "coherent s \<Longrightarrow> pred_option coherent (wrapper_Close_mark s)"
  by (cases "pc s"; cases "owner s") (simp_all add: wrapper_Close_mark_def coherent_def)

lemma coherent_Interrupt: "coherent s \<Longrightarrow> coherent (wrapper_Interrupt w s)"
  by (cases "Interruptable w") (simp_all add: wrapper_Interrupt_def coherent_def)

lemma coherent_ready_received: "coherent s \<Longrightarrow> pred_option coherent (ready_received s)"
  by (cases "pc s"; cases "owner s") (simp_all add: ready_received_def coherent_def)

lemma coherent_job_sent: "coherent s \<Longrightarrow> pred_option coherent (job_sent d s)"
  by (cases "pc s"; cases "owner s") (simp_all add: job_sent_def coherent_def)

lemma coherent_output_received: "coherent s \<Longrightarrow> pred_option coherent (output_received s)"
  by (cases "pc s"; cases "owner s") (simp_all add: output_received_def coherent_def)

lemma coherent_Join_recv_ready: "coherent s \<Longrightarrow> pred_option coherent (Join_recv_ready s)"
  by (cases "pc s"; cases "owner s")
     (simp_all add: Join_recv_ready_def ready_received_def coherent_def)

lemma coherent_Join_recv_output: "coherent s \<Longrightarrow> pred_option coherent (Join_recv_output s)"
  by (cases "pc s"; cases "owner s")
     (simp_all add: Join_recv_output_def output_received_def coherent_def)

lemma coherent_Join_terminate: "coherent s \<Longrightarrow> pred_option coherent (Join_terminate w s)"
  by (cases "Extended w"; cases "pc s"; cases "owner s")
     (auto simp: Join_terminate_def coherent_def)

lemma coherent_step: "coherent s \<Longrightarrow> pred_option coherent (step w m s)"
  by (cases m)
     (simp_all add: coherent_Loop_step coherent_Open coherent_Close_jobChan
        coherent_Close_mark coherent_Interrupt coherent_ready_received coherent_job_sent
        coherent_output_received coherent_Join_recv_ready coherent_Join_recv_output
        coherent_Join_terminate)

lemma coherent_run: "run w ms (constructed ws) = Some s \<Longrightarrow> coherent s"
  using run_invariant [of coherent w, OF coherent_step coherent_constructed] by blast

text \<open>An invariant may lean on \<open>coherent\<close>.\<close>

lemma run_invariant_coherent:
  assumes step: "\<And>m s. coherent s \<Longrightarrow> P s \<Longrightarrow> pred_option P (step w m s)"
    and init: "P (constructed ws)"
    and run: "run w ms (constructed ws) = Some s"
  shows "P s"
proof -
  have "coherent s \<and> P s"
    by (rule run_invariant [where P = "\<lambda>s. coherent s \<and> P s", OF _ _ run])
       (simp_all add: pred_option_conj coherent_step step coherent_constructed init)
  then show ?thesis ..
qed

subsection \<open>One job at a time\<close>

lemma flight_append: "flight (es @ fs) = foldl flight_step (flight es) fs"
  by (simp add: flight_def)

lemma flight_Loop_step: "inv_flight s \<Longrightarrow> pred_option inv_flight (Loop_step w s)"
  by (cases "pc s")
     (simp_all add: Loop_step_def inv_flight_def flight_append flight_step_def
        split: prod.splits)

lemma flight_Open: "inv_flight s \<Longrightarrow> coherent s \<Longrightarrow> pred_option inv_flight (wrapper_Open w s)"
  by (cases "Extended w"; cases "owner s")
     (auto simp: wrapper_Open_def inv_flight_def flight_append flight_step_def coherent_def)

lemma flight_others:
  "inv_flight s \<Longrightarrow> pred_option inv_flight (wrapper_Close_jobChan s)"
  "inv_flight s \<Longrightarrow> pred_option inv_flight (wrapper_Close_mark s)"
  "inv_flight s \<Longrightarrow> inv_flight (wrapper_Interrupt w s)"
  "inv_flight s \<Longrightarrow> pred_option inv_flight (ready_received s)"
  "inv_flight s \<Longrightarrow> pred_option inv_flight (job_sent d s)"
  "inv_flight s \<Longrightarrow> pred_option inv_flight (Join_terminate w s)"
  by (cases "pc s"; cases "Extended w"; cases "Interruptable w";
      auto simp: wrapper_Close_jobChan_def wrapper_Close_mark_def wrapper_Interrupt_def
        ready_received_def job_sent_def Join_terminate_def inv_flight_def flight_append
        flight_step_def)+

lemma flight_output_received: "inv_flight s \<Longrightarrow> pred_option inv_flight (output_received s)"
  by (cases "pc s")
     (simp_all add: output_received_def inv_flight_def flight_append flight_step_def)

lemma flight_Join_recv_ready: "inv_flight s \<Longrightarrow> pred_option inv_flight (Join_recv_ready s)"
  by (cases "pc s")
     (simp_all add: Join_recv_ready_def ready_received_def inv_flight_def flight_append
        flight_step_def)

lemma flight_Join_recv_output: "inv_flight s \<Longrightarrow> pred_option inv_flight (Join_recv_output s)"
  by (cases "pc s"; cases "owner s")
     (simp_all add: Join_recv_output_def output_received_def inv_flight_def flight_append
        flight_step_def)

lemma flight_step_inv:
  "coherent s \<Longrightarrow> inv_flight s \<Longrightarrow> pred_option inv_flight (step w m s)"
  by (cases m)
     (simp_all add: flight_Loop_step flight_Open flight_others flight_output_received
        flight_Join_recv_ready flight_Join_recv_output)

lemma flight_run:
  assumes "run w ms (constructed ws) = Some s"
  shows "inv_flight s"
proof (rule run_invariant_coherent [of inv_flight w, OF flight_step_inv _ assms])
  show "inv_flight (constructed ws)"
    by (simp add: inv_flight_def constructed_def flight_def)
qed

lemma foldl_Violated: "foldl flight_step Violated es = Violated"
  by (induction es) (simp_all add: flight_step_def split: event.splits)

lemma flight_back_to_NoJob:
  "foldl flight_step st ys = NoJob \<Longrightarrow>
     (\<forall>d. st = Received d \<longrightarrow> (\<exists>r. EvJob d r \<in> set ys \<and> EvSendOutput r \<in> set ys))
     \<and> (\<forall>r. st = Computed r \<longrightarrow> EvSendOutput r \<in> set ys)"
proof (induction ys arbitrary: st)
  case Nil
  then show ?case by auto
next
  case (Cons e ys)
  show ?case
  proof (cases "flight_step st e = Violated")
    case True
    with Cons.prems show ?thesis by (simp add: foldl_Violated)
  next
    case False
    from Cons.prems have "foldl flight_step (flight_step st e) ys = NoJob" by simp
    from Cons.IH [OF this] False show ?thesis
      by (cases e; cases st) (auto simp: flight_step_def split: if_splits)
  qed
qed

lemma flight_between:
  assumes "flight (xs @ EvRecvJob d # ys @ EvRecvJob d' # zs) \<noteq> Violated"
  shows "\<exists>r. EvJob d r \<in> set ys \<and> EvSendOutput r \<in> set ys"
proof -
  let ?a = "flight (xs @ [EvRecvJob d])"
  let ?b = "foldl flight_step ?a ys"
  have eq: "flight (xs @ EvRecvJob d # ys @ EvRecvJob d' # zs)
              = foldl flight_step (flight_step ?b (EvRecvJob d')) zs"
    by (simp add: flight_def)
  with assms have nv: "flight_step ?b (EvRecvJob d') \<noteq> Violated"
    using foldl_Violated by metis
  then have b: "?b = NoJob" by (simp add: flight_step_def split: if_splits)
  have "?a = Received d \<or> ?a = Violated"
    by (simp add: flight_append flight_step_def)
  moreover have "?a \<noteq> Violated" using b foldl_Violated [of ys] by auto
  ultimately have "?a = Received d" by simp
  with flight_back_to_NoJob [OF b] show ?thesis by simp
qed

lemma flight_at_not_Violated: "flight_at p \<noteq> Violated"
  by (cases p) simp_all

subsection \<open>A job only after readiness\<close>

lemma ready_kept_append: "ready_kept (es @ fs) = foldl ready_step (ready_kept es) fs"
  by (simp add: ready_kept_def)

lemma ready_Loop_step:
  "coherent s \<Longrightarrow> inv_ready s \<Longrightarrow> pred_option inv_ready (Loop_step w s)"
  by (cases "pc s"; cases "owner s"; cases "ready_kept (trace s)")
     (simp_all add: Loop_step_def inv_ready_def ready_kept_append ready_step_def coherent_def
        split: prod.splits)

lemma ready_Open:
  "coherent s \<Longrightarrow> inv_ready s \<Longrightarrow> pred_option inv_ready (wrapper_Open w s)"
  by (cases "Extended w"; cases "owner s"; cases "ready_kept (trace s)")
     (auto simp: wrapper_Open_def inv_ready_def ready_kept_append ready_step_def coherent_def)

lemma ready_Close_jobChan:
  "inv_ready s \<Longrightarrow> pred_option inv_ready (wrapper_Close_jobChan s)"
  by (cases "pc s"; cases "owner s"; cases "ready_kept (trace s)")
     (simp_all add: wrapper_Close_jobChan_def inv_ready_def ready_kept_append ready_step_def)

lemma ready_Close_mark:
  "inv_ready s \<Longrightarrow> pred_option inv_ready (wrapper_Close_mark s)"
  by (cases "pc s"; cases "owner s"; cases "ready_kept (trace s)")
     (simp_all add: wrapper_Close_mark_def inv_ready_def ready_kept_append ready_step_def)

lemma ready_Interrupt: "inv_ready s \<Longrightarrow> inv_ready (wrapper_Interrupt w s)"
  by (cases "Interruptable w"; cases "pc s"; cases "ready_kept (trace s)")
     (simp_all add: wrapper_Interrupt_def inv_ready_def ready_kept_append ready_step_def)

lemma ready_ready_received: "inv_ready s \<Longrightarrow> pred_option inv_ready (ready_received s)"
  by (cases "pc s"; cases "ready_kept (trace s)")
     (simp_all add: ready_received_def inv_ready_def ready_kept_append ready_step_def)

lemma ready_job_sent: "inv_ready s \<Longrightarrow> pred_option inv_ready (job_sent d s)"
  by (cases "pc s"; cases "ready_kept (trace s)")
     (auto simp: job_sent_def inv_ready_def ready_kept_append ready_step_def)

lemma ready_output_received: "inv_ready s \<Longrightarrow> pred_option inv_ready (output_received s)"
  by (cases "pc s"; cases "ready_kept (trace s)")
     (simp_all add: output_received_def inv_ready_def ready_kept_append ready_step_def)

lemma ready_Join_recv_ready: "inv_ready s \<Longrightarrow> pred_option inv_ready (Join_recv_ready s)"
  by (cases "pc s"; cases "ready_kept (trace s)")
     (simp_all add: Join_recv_ready_def ready_received_def inv_ready_def ready_kept_append
        ready_step_def)

lemma ready_Join_recv_output: "inv_ready s \<Longrightarrow> pred_option inv_ready (Join_recv_output s)"
  by (cases "pc s"; cases "owner s"; cases "ready_kept (trace s)")
     (simp_all add: Join_recv_output_def output_received_def inv_ready_def ready_kept_append
        ready_step_def)

lemma ready_Join_terminate: "inv_ready s \<Longrightarrow> pred_option inv_ready (Join_terminate w s)"
  by (cases "Extended w"; cases "pc s"; cases "ready_kept (trace s)")
     (auto simp: Join_terminate_def inv_ready_def ready_kept_append ready_step_def)

lemma ready_step_inv:
  "coherent s \<Longrightarrow> inv_ready s \<Longrightarrow> pred_option inv_ready (step w m s)"
  by (cases m)
     (simp_all add: ready_Loop_step ready_Open ready_Close_jobChan ready_Close_mark
        ready_Interrupt ready_ready_received ready_job_sent ready_output_received
        ready_Join_recv_ready ready_Join_recv_output ready_Join_terminate)

lemma ready_run:
  assumes "run w ms (constructed ws) = Some s"
  shows "inv_ready s"
proof (rule run_invariant_coherent [of inv_ready w, OF ready_step_inv _ assms])
  show "inv_ready (constructed ws)"
    by (simp add: inv_ready_def constructed_def ready_kept_def)
qed

lemma foldl_ready_None: "foldl ready_step None es = None"
  by (induction es) (simp_all add: ready_step_def)

lemma most_recent_ready_snoc:
  "most_recent_ready (es @ [e]) =
     (case e of EvReady b \<Rightarrow> Some b | _ \<Rightarrow> most_recent_ready es)"
  by (induction es) (auto split: event.splits option.splits)

lemma ready_kept_most_recent:
  "ready_kept es = Some b \<Longrightarrow> b = (most_recent_ready es = Some True)"
proof (induction es arbitrary: b rule: rev_induct)
  case Nil
  then show ?case by (simp add: ready_kept_def)
next
  case (snoc e es)
  show ?case
  proof (cases "ready_kept es")
    case None
    with snoc.prems show ?thesis by (simp add: ready_kept_append ready_step_def)
  next
    case (Some b0)
    from snoc.IH [OF Some] snoc.prems Some show ?thesis
      by (cases e)
         (auto simp: ready_kept_append ready_step_def most_recent_ready_snoc split: if_splits)
  qed
qed

lemma ready_before_job:
  assumes "ready_kept (xs @ EvJob d r # zs) \<noteq> None"
  shows "most_recent_ready xs = Some True"
proof -
  have "ready_kept (xs @ EvJob d r # zs)
          = foldl ready_step (ready_step (ready_kept xs) (EvJob d r)) zs"
    by (simp add: ready_kept_def)
  with assms have "ready_step (ready_kept xs) (EvJob d r) \<noteq> None"
    using foldl_ready_None by metis
  then have "ready_kept xs = Some True"
    by (cases "ready_kept xs") (auto simp: ready_step_def split: if_splits)
  from ready_kept_most_recent [OF this] show ?thesis by simp
qed

subsection \<open>After the loop has seen the pool closed\<close>
















subsection \<open>After the pool is closed\<close>





















subsection \<open>The calls of Initialize and Terminate\<close>

lemma before_append:
  "before e (es @ fs) = (if count_list es e = 0 then es @ before e fs else before e es)"
  by (induction es) (auto simp: before_def)

lemma before_none: "count_list es e = 0 \<Longrightarrow> before e es = es"
  by (induction es) (auto simp: before_def split: if_splits)

lemma before_simps:
  "before e [] = []"
  "before e (x # xs) = (if x = e then [] else x # before e xs)"
  by (simp_all add: before_def)

lemmas life_simps = inv_life_def before_append before_simps coherent_def

lemma life_Loop_step:
  "coherent s \<Longrightarrow> inv_life s \<Longrightarrow> pred_option inv_life (Loop_step w s)"
  by (cases "pc s"; cases "owner s")
     (simp_all add: Loop_step_def life_simps split: prod.splits)

lemma life_Open:
  "Extended w = Some it \<Longrightarrow> coherent s \<Longrightarrow> inv_life s \<Longrightarrow> pred_option inv_life (wrapper_Open w s)"
  by (cases it; cases "owner s")
     (auto simp: wrapper_Open_def life_simps)

lemma life_Close_jobChan:
  "coherent s \<Longrightarrow> inv_life s \<Longrightarrow> pred_option inv_life (wrapper_Close_jobChan s)"
  by (cases "pc s"; cases "owner s")
     (simp_all add: wrapper_Close_jobChan_def life_simps)

lemma life_Close_mark:
  "coherent s \<Longrightarrow> inv_life s \<Longrightarrow> pred_option inv_life (wrapper_Close_mark s)"
  by (cases "pc s"; cases "owner s")
     (simp_all add: wrapper_Close_mark_def life_simps)

lemma life_Interrupt: "coherent s \<Longrightarrow> inv_life s \<Longrightarrow> inv_life (wrapper_Interrupt w s)"
  by (cases "Interruptable w"; cases "pc s"; cases "owner s")
     (simp_all add: wrapper_Interrupt_def life_simps)

lemma life_ready_received:
  "coherent s \<Longrightarrow> inv_life s \<Longrightarrow> pred_option inv_life (ready_received s)"
  by (cases "pc s"; cases "owner s")
     (simp_all add: ready_received_def life_simps)

lemma life_job_sent:
  "coherent s \<Longrightarrow> inv_life s \<Longrightarrow> pred_option inv_life (job_sent d s)"
  by (cases "pc s"; cases "owner s")
     (simp_all add: job_sent_def life_simps)

lemma life_output_received:
  "coherent s \<Longrightarrow> inv_life s \<Longrightarrow> pred_option inv_life (output_received s)"
  by (cases "pc s"; cases "owner s")
     (simp_all add: output_received_def life_simps)

lemma life_Join_recv_ready:
  "coherent s \<Longrightarrow> inv_life s \<Longrightarrow> pred_option inv_life (Join_recv_ready s)"
  by (cases "pc s"; cases "owner s")
     (simp_all add: Join_recv_ready_def ready_received_def life_simps)

lemma life_Join_recv_output:
  "coherent s \<Longrightarrow> inv_life s \<Longrightarrow> pred_option inv_life (Join_recv_output s)"
  by (cases "pc s"; cases "owner s")
     (simp_all add: Join_recv_output_def output_received_def life_simps)

lemma life_Join_terminate:
  "Extended w = Some it \<Longrightarrow> coherent s \<Longrightarrow> inv_life s \<Longrightarrow> pred_option inv_life (Join_terminate w s)"
  by (cases it; cases "pc s"; cases "owner s")
     (simp_all add: Join_terminate_def life_simps)

lemma life_step_inv:
  "Extended w = Some it \<Longrightarrow> coherent s \<Longrightarrow> inv_life s \<Longrightarrow> pred_option inv_life (step w m s)"
  by (cases m)
     (simp_all add: life_Loop_step life_Open life_Close_jobChan life_Close_mark
        life_Interrupt life_ready_received life_job_sent life_output_received
        life_Join_recv_ready life_Join_recv_output life_Join_terminate)

lemma life_run:
  assumes "run w ms (constructed ws) = Some s" and "Extended w = Some it"
  shows "inv_life s"
proof (rule run_invariant_coherent [of inv_life w, OF life_step_inv [OF assms(2)] _ assms(1)])
  show "inv_life (constructed ws)"
    by (simp add: inv_life_def constructed_def before_def)
qed

lemma replay_append: "replay w ws (es @ fs) = foldl (\<lambda>x e. call w e x) (replay w ws es) fs"
  by (simp add: replay_def)

lemma calls_Loop_step: "inv_calls w ws s \<Longrightarrow> pred_option (inv_calls w ws) (Loop_step w s)"
  by (cases "pc s")
     (simp_all add: Loop_step_def inv_calls_def replay_append split: prod.splits)

lemma calls_Open: "inv_calls w ws s \<Longrightarrow> pred_option (inv_calls w ws) (wrapper_Open w s)"
  by (cases "Extended w"; cases "owner s")
     (auto simp: wrapper_Open_def inv_calls_def replay_append)

lemma calls_Interrupt: "inv_calls w ws s \<Longrightarrow> inv_calls w ws (wrapper_Interrupt w s)"
  by (cases "Interruptable w") (simp_all add: wrapper_Interrupt_def inv_calls_def replay_append)

lemma calls_Join_terminate:
  "inv_calls w ws s \<Longrightarrow> pred_option (inv_calls w ws) (Join_terminate w s)"
  by (cases "Extended w") (auto simp: Join_terminate_def inv_calls_def replay_append)

lemma calls_others:
  "inv_calls w ws s \<Longrightarrow> pred_option (inv_calls w ws) (wrapper_Close_jobChan s)"
  "inv_calls w ws s \<Longrightarrow> pred_option (inv_calls w ws) (wrapper_Close_mark s)"
  "inv_calls w ws s \<Longrightarrow> pred_option (inv_calls w ws) (ready_received s)"
  "inv_calls w ws s \<Longrightarrow> pred_option (inv_calls w ws) (job_sent d s)"
  by (simp_all add: wrapper_Close_jobChan_def wrapper_Close_mark_def ready_received_def
        job_sent_def inv_calls_def replay_append)

lemma calls_output_received:
  "inv_calls w ws s \<Longrightarrow> pred_option (inv_calls w ws) (output_received s)"
  by (cases "pc s") (simp_all add: output_received_def inv_calls_def replay_append)

lemma calls_Join_recv_ready:
  "inv_calls w ws s \<Longrightarrow> pred_option (inv_calls w ws) (Join_recv_ready s)"
  by (simp add: Join_recv_ready_def ready_received_def inv_calls_def replay_append)

lemma calls_Join_recv_output:
  "inv_calls w ws s \<Longrightarrow> pred_option (inv_calls w ws) (Join_recv_output s)"
  by (cases "pc s"; cases "owner s")
     (simp_all add: Join_recv_output_def output_received_def inv_calls_def replay_append)

lemma calls_step_inv: "inv_calls w ws s \<Longrightarrow> pred_option (inv_calls w ws) (step w m s)"
  by (cases m)
     (simp_all add: calls_Loop_step calls_Open calls_Interrupt calls_Join_terminate
        calls_others calls_output_received calls_Join_recv_ready calls_Join_recv_output)

lemma calls_run:
  assumes "run w ms (constructed ws) = Some s"
  shows "worker s = replay w ws (trace s)"
proof -
  have "inv_calls w ws (constructed ws)"
    by (simp add: inv_calls_def constructed_def replay_def)
  from run_invariant [of "inv_calls w ws" w, OF calls_step_inv this assms]
  show ?thesis by (simp add: inv_calls_def)
qed

lemma Open_calls_Initialize:
  assumes "Extended w = Some (initialize, terminate)" and "owner s = Idle"
  shows "wrapper_Open w s =
           Some (s\<lparr>readyChan := ChanOpen, jobChan := ChanOpen, outputChan := ChanOpen,
                   poolOpen := 1, worker := initialize (worker s), pc := AtReady1,
                   owner := Opened, trace := trace s @ [EvInitialize, EvLoopStart]\<rparr>)"
  using assms by (simp add: wrapper_Open_def)

lemma Join_calls_Terminate:
  assumes "Extended w = Some (initialize, terminate)" and "owner s = AtTerminate"
  shows "Join_terminate w s =
           Some (s\<lparr>worker := terminate (worker s), owner := Joined,
                   trace := trace s @ [EvTerminate]\<rparr>)"
  using assms by (simp add: Join_terminate_def)

subsection \<open>Leaving the loop, leaving the drain\<close>

lemma Join_after_exit:
  assumes "coherent s" and "pc s = Exited"
  shows "owner s = AtJoinReady \<Longrightarrow>
           map_option owner (run w [MvJoinRecvReady, MvJoinRecvOutput] s) = Some AtTerminate"
    and "owner s = AtJoinOutput False \<Longrightarrow>
           map_option owner (run w [MvJoinRecvOutput] s) = Some AtTerminate"
    and "owner s = AtJoinOutput True \<Longrightarrow>
           map_option owner (run w [MvJoinRecvOutput, MvJoinRecvReady, MvJoinRecvOutput] s)
             = Some AtTerminate"
  using assms by (simp_all add: coherent_def Join_recv_ready_def Join_recv_output_def)

lemma Loop_exit_closes:
  assumes "coherent s" and "pc s = AtCloseReady"
  shows "map_option (\<lambda>t. (pc t, readyChan t, outputChan t)) (run w [MvLoop, MvLoop] s)
           = Some (Exited, ChanClosed, ChanClosed)"
  using assms by (simp add: Loop_step_def)

lemma Join_leaves_exactly:
  assumes "coherent s" and "owner s = AtJoinOutput readyOpen"
  shows "(map_option owner (Join_recv_output s) = Some AtTerminate)
           = (\<not> readyOpen \<and> outputChan s = ChanClosed)"
  using assms
  by (cases "pc s") (auto simp: coherent_def Join_recv_output_def output_received_def)

subsection \<open>The runs of the examples\<close>

lemma lifecycle_run:
  "run doubler lifecycle (constructed ()) =
     Some \<lparr>readyChan = ChanClosed, jobChan = ChanClosed, outputChan = ChanClosed,
            poolOpen = 0, worker = (), pc = Exited, owner = Joined,
            trace =
              [EvInitialize, EvLoopStart, EvReady True, EvSendReady, EvRecvJob 10,
               EvJob 10 20, EvSendOutput 20, EvReady True, EvSendReady,
               EvRecvJob 21, EvInterrupt, EvJob 21 42, EvSendOutput 42,
               EvReady True, EvCloseJobChan, EvMarkClosed, EvSendReady,
               EvJoinRecvReady True, EvJobChanClosed, EvCloseReady, EvCloseOutput,
               EvJoinRecvOutput False, EvJoinRecvReady False,
               EvJoinRecvOutput False, EvJoinDrained, EvTerminate]\<rparr>"
  by (simp add: lifecycle_def doubler_def constructed_def step_defs)



lemma exit_before_join_run:
  "run doubler exit_before_join (constructed ()) =
     Some \<lparr>readyChan = ChanClosed, jobChan = ChanClosed, outputChan = ChanClosed,
            poolOpen = 0, worker = (), pc = Exited, owner = AtJoinReady,
            trace =
              [EvInitialize, EvLoopStart, EvReady True, EvSendReady,
               EvCloseJobChan, EvJobChanClosed, EvCloseReady, EvCloseOutput,
               EvMarkClosed]\<rparr>"
  by (simp add: exit_before_join_def doubler_def constructed_def step_defs)

lemma leaving_run:
  "run doubler leaving (constructed ()) =
     Some \<lparr>readyChan = ChanOpen, jobChan = ChanClosed, outputChan = ChanOpen,
            poolOpen = 1, worker = (), pc = AtCloseReady, owner = AtMarkClosed,
            trace =
              [EvInitialize, EvLoopStart, EvReady True, EvSendReady,
               EvCloseJobChan, EvJobChanClosed]\<rparr>"
  by (simp add: leaving_def doubler_def constructed_def step_defs)

lemma mid_drain_run:
  "run doubler mid_drain (constructed ()) =
     Some \<lparr>readyChan = ChanClosed, jobChan = ChanClosed, outputChan = ChanClosed,
            poolOpen = 0, worker = (), pc = Exited, owner = AtJoinOutput True,
            trace =
              [EvInitialize, EvLoopStart, EvReady True, EvCloseJobChan,
               EvMarkClosed, EvSendReady, EvJoinRecvReady True, EvJobChanClosed,
               EvCloseReady, EvCloseOutput]\<rparr>"
  by (simp add: mid_drain_def doubler_def constructed_def step_defs)


lemma recorder_run:
  "run recorder lifecycle (constructed []) =
     Some \<lparr>readyChan = ChanClosed, jobChan = ChanClosed, outputChan = ChanClosed,
            poolOpen = 0, worker = [1, 3, 4, 3, 5, 4, 3, 2], pc = Exited, owner = Joined,
            trace =
              [EvInitialize, EvLoopStart, EvReady True, EvSendReady, EvRecvJob 10,
               EvJob 10 20, EvSendOutput 20, EvReady True, EvSendReady,
               EvRecvJob 21, EvInterrupt, EvJob 21 42, EvSendOutput 42,
               EvReady True, EvCloseJobChan, EvMarkClosed, EvSendReady,
               EvJoinRecvReady True, EvJobChanClosed, EvCloseReady, EvCloseOutput,
               EvJoinRecvOutput False, EvJoinRecvReady False,
               EvJoinRecvOutput False, EvJoinDrained, EvTerminate]\<rparr>"
  by (simp add: lifecycle_def recorder_def constructed_def step_defs)

lemma until_drained_run:
  "run recorder until_drained (constructed []) =
     Some \<lparr>readyChan = ChanClosed, jobChan = ChanClosed, outputChan = ChanClosed,
            poolOpen = 0, worker = [1, 3, 4, 3, 5, 4, 3], pc = Exited, owner = AtTerminate,
            trace =
              [EvInitialize, EvLoopStart, EvReady True, EvSendReady, EvRecvJob 10,
               EvJob 10 20, EvSendOutput 20, EvReady True, EvSendReady,
               EvRecvJob 21, EvInterrupt, EvJob 21 42, EvSendOutput 42,
               EvReady True, EvCloseJobChan, EvMarkClosed, EvSendReady,
               EvJoinRecvReady True, EvJobChanClosed, EvCloseReady, EvCloseOutput,
               EvJoinRecvOutput False, EvJoinRecvReady False,
               EvJoinRecvOutput False, EvJoinDrained]\<rparr>"
  by (simp add: until_drained_def recorder_def constructed_def step_defs)

section \<open>The claims about the wrapper\<close>

text \<open>
  C1: at most one job is in flight in a wrapper at any time. In every state a run can
  reach, the history read from its start never receives a job while another is being
  worked on or waits to be sent (\<open>flight\<close> is not \<open>Violated\<close>), and what is in flight
  is what the place of the loop says. So between two receives from the job channel the
  worker's \<^verbatim>\<open>Job\<close> has run on the first input and its result has been sent on the
  output channel.
\<close>

theorem C1_one_job_in_flight:
  assumes "run w ms (constructed ws) = Some s"
  shows "flight (trace s) = flight_at (pc s)
         \<and> flight (trace s) \<noteq> Violated
         \<and> (\<forall>xs d ys d' zs.
               trace s = xs @ EvRecvJob d # ys @ EvRecvJob d' # zs \<longrightarrow>
               (\<exists>r. EvJob d r \<in> set ys \<and> EvSendOutput r \<in> set ys))"
proof -
  from flight_run [OF assms] have a: "flight (trace s) = flight_at (pc s)"
    by (simp add: inv_flight_def)
  then have b: "flight (trace s) \<noteq> Violated"
    by (simp add: flight_at_not_Violated)
  from b have "\<And>xs d ys d' zs.
      trace s = xs @ EvRecvJob d # ys @ EvRecvJob d' # zs \<Longrightarrow>
      \<exists>r. EvJob d r \<in> set ys \<and> EvSendOutput r \<in> set ys"
    using flight_between by metis
  with a b show ?thesis by blast
qed

theorem C1_one_job_in_flight_witness:
  "run doubler lifecycle (constructed ()) \<noteq> None
   \<and> flight (trace (the (run doubler lifecycle (constructed ())))) = NoJob
   \<and> (\<exists>r. EvJob (10::int) r
             \<in> set [EvJob 10 20, EvSendOutput 20, EvReady True, EvSendReady]
          \<and> EvSendOutput r \<in> set [EvJob 10 20, EvSendOutput 20, EvReady True, EvSendReady])"
proof -
  let ?s = "the (run doubler lifecycle (constructed ()))"
  have r: "run doubler lifecycle (constructed ()) = Some ?s"
    by (simp add: lifecycle_run)
  have t: "trace ?s =
      [EvInitialize, EvLoopStart, EvReady True, EvSendReady]
        @ EvRecvJob 10 # [EvJob 10 20, EvSendOutput 20, EvReady True, EvSendReady]
        @ EvRecvJob 21 #
          [EvInterrupt, EvJob 21 42, EvSendOutput 42,
           EvReady True, EvCloseJobChan, EvMarkClosed, EvSendReady,
           EvJoinRecvReady True, EvJobChanClosed, EvCloseReady, EvCloseOutput,
           EvJoinRecvOutput False, EvJoinRecvReady False,
           EvJoinRecvOutput False, EvJoinDrained, EvTerminate]"
    by (simp add: lifecycle_run)
  from C1_one_job_in_flight [OF r] t
  have "flight (trace ?s) = flight_at (pc ?s)"
    and "\<exists>r. EvJob (10::int) r
              \<in> set [EvJob 10 20, EvSendOutput 20, EvReady True, EvSendReady]
          \<and> EvSendOutput r \<in> set [EvJob 10 20, EvSendOutput 20, EvReady True, EvSendReady]"
    by blast+
  then show ?thesis using r by (simp add: lifecycle_run)
qed

text \<open>
  C2: the wrapper never calls the worker's \<^verbatim>\<open>Job\<close> unless the worker's most recent
  \<^verbatim>\<open>Ready\<close> call returned true. In every state a run can reach, each \<open>EvJob\<close> of
  the history comes when the last \<open>EvReady\<close> before it carries \<open>True\<close>. (The loop
  also leaves its polling when it loads 0 from \<^verbatim>\<open>poolOpen\<close>; \<^verbatim>\<open>Close\<close> has closed
  \<^verbatim>\<open>jobChan\<close> before it stores the 0, so the range then ends without a job.)
\<close>

theorem C2_Job_only_when_ready:
  assumes "run w ms (constructed ws) = Some s"
  shows "ready_kept (trace s) \<noteq> None
         \<and> (\<forall>xs d r zs. trace s = xs @ EvJob d r # zs \<longrightarrow> most_recent_ready xs = Some True)"
proof -
  from ready_run [OF assms] have a: "ready_kept (trace s) \<noteq> None"
    by (auto simp: inv_ready_def split: option.splits)
  then have "\<And>xs d r zs. trace s = xs @ EvJob d r # zs \<Longrightarrow> most_recent_ready xs = Some True"
    using ready_before_job by metis
  with a show ?thesis by blast
qed

theorem C2_Job_only_when_ready_witness:
  "run doubler lifecycle (constructed ()) \<noteq> None
   \<and> most_recent_ready
        [EvInitialize, EvLoopStart, EvReady True, EvSendReady, EvRecvJob (10::int)] = Some True
   \<and> most_recent_ready
        [EvInitialize, EvLoopStart, EvReady True, EvSendReady, EvRecvJob (10::int),
         EvJob 10 20, EvSendOutput 20, EvReady True, EvSendReady,
         EvRecvJob 21, EvInterrupt] = Some True"
proof -
  let ?s = "the (run doubler lifecycle (constructed ()))"
  have r: "run doubler lifecycle (constructed ()) = Some ?s"
    by (simp add: lifecycle_run)
  have t1: "trace ?s =
      [EvInitialize, EvLoopStart, EvReady True, EvSendReady, EvRecvJob 10]
        @ EvJob 10 20 #
          [EvSendOutput 20, EvReady True, EvSendReady,
           EvRecvJob 21, EvInterrupt, EvJob 21 42, EvSendOutput 42,
           EvReady True, EvCloseJobChan, EvMarkClosed, EvSendReady,
           EvJoinRecvReady True, EvJobChanClosed, EvCloseReady, EvCloseOutput,
           EvJoinRecvOutput False, EvJoinRecvReady False,
           EvJoinRecvOutput False, EvJoinDrained, EvTerminate]"
    by (simp add: lifecycle_run)
  have t2: "trace ?s =
      [EvInitialize, EvLoopStart, EvReady True, EvSendReady, EvRecvJob 10,
         EvJob 10 20, EvSendOutput 20, EvReady True, EvSendReady,
         EvRecvJob 21, EvInterrupt]
        @ EvJob 21 42 #
          [EvSendOutput 42,
           EvReady True, EvCloseJobChan, EvMarkClosed, EvSendReady,
           EvJoinRecvReady True, EvJobChanClosed, EvCloseReady, EvCloseOutput,
           EvJoinRecvOutput False, EvJoinRecvReady False,
           EvJoinRecvOutput False, EvJoinDrained, EvTerminate]"
    by (simp add: lifecycle_run)
  from C2_Job_only_when_ready [OF r] t1 t2 show ?thesis
    using r by blast
qed




text \<open>
  C4: for a worker with the extended interface, \<^verbatim>\<open>Open\<close> applies the worker's
  \<^verbatim>\<open>Initialize\<close> once, before it makes the channels and starts the loop, and \<^verbatim>\<open>Join\<close>
  applies the worker's \<^verbatim>\<open>Terminate\<close> once, after its drain loop. Over a run, the state
  of the worker is what the recorded calls, applied in their order, make of its first
  state; among them \<^verbatim>\<open>Initialize\<close> occurs exactly once, with nothing but \<^verbatim>\<open>Interrupt\<close>
  calls before it (no loop start, no \<^verbatim>\<open>Ready\<close> call), and \<^verbatim>\<open>Terminate\<close> exactly once,
  when \<^verbatim>\<open>Join\<close> returns: never before, and only after \<^verbatim>\<open>Close\<close> has closed the job
  channel and stored 0, the loop has closed its two channels, and \<^verbatim>\<open>Join\<close> has left
  its drain loop.
\<close>

theorem C4_Initialize_Terminate_once:
  assumes "run w ms (constructed ws) = Some s"
    and "Extended w = Some (initialize, terminate)"
  shows "count_list (trace s) EvInitialize = (if owner s = Idle then 0 else 1)
         \<and> set (before EvInitialize (trace s)) \<subseteq> {EvInterrupt}
         \<and> count_list (trace s) EvTerminate = (if owner s = Joined then 1 else 0)
         \<and> (owner s = Joined \<longrightarrow>
               pc s = Exited
               \<and> {EvCloseJobChan, EvMarkClosed, EvCloseReady, EvCloseOutput, EvJoinDrained}
                     \<subseteq> set (before EvTerminate (trace s)))
         \<and> worker s = replay w ws (trace s)
         \<and> (owner s = Idle \<longrightarrow>
               wrapper_Open w s =
                 Some (s\<lparr>readyChan := ChanOpen, jobChan := ChanOpen, outputChan := ChanOpen,
                         poolOpen := 1, worker := initialize (worker s), pc := AtReady1,
                         owner := Opened, trace := trace s @ [EvInitialize, EvLoopStart]\<rparr>))
         \<and> (owner s = AtTerminate \<longrightarrow>
               Join_terminate w s =
                 Some (s\<lparr>worker := terminate (worker s), owner := Joined,
                         trace := trace s @ [EvTerminate]\<rparr>))"
proof -
  from life_run [OF assms] have l: "inv_life s" .
  from coherent_run [OF assms(1)] have c: "coherent s" .
  from l have a: "count_list (trace s) EvInitialize = (if owner s = Idle then 0 else 1)"
    and t: "count_list (trace s) EvTerminate = (if owner s = Joined then 1 else 0)"
    by (simp_all add: inv_life_def)
  from l a have b: "set (before EvInitialize (trace s)) \<subseteq> {EvInterrupt}"
    by (cases "owner s = Idle") (simp_all add: inv_life_def before_none)
  from l c have j: "owner s = Joined \<longrightarrow>
      pc s = Exited
      \<and> {EvCloseJobChan, EvMarkClosed, EvCloseReady, EvCloseOutput, EvJoinDrained}
            \<subseteq> set (before EvTerminate (trace s))"
    by (cases "owner s") (simp_all add: inv_life_def coherent_def)
  note r = calls_run [OF assms(1)]
  from a b t j r Open_calls_Initialize [OF assms(2)] Join_calls_Terminate [OF assms(2)]
  show ?thesis by blast
qed

theorem C4_Initialize_Terminate_once_witness:
  "run recorder lifecycle (constructed []) \<noteq> None
   \<and> Extended recorder = Some ((\<lambda>ws. ws @ [1]), (\<lambda>ws. ws @ [2]))
   \<and> owner (the (run recorder lifecycle (constructed []))) = Joined
   \<and> count_list (trace (the (run recorder lifecycle (constructed [])))) EvInitialize = 1
   \<and> count_list (trace (the (run recorder lifecycle (constructed [])))) EvTerminate = 1
   \<and> before EvInitialize (trace (the (run recorder lifecycle (constructed [])))) = []
   \<and> {EvCloseJobChan, EvMarkClosed, EvCloseReady, EvCloseOutput, EvJoinDrained}
        \<subseteq> set (before EvTerminate (trace (the (run recorder lifecycle (constructed [])))))
   \<and> worker (the (run recorder lifecycle (constructed []))) = [1, 3, 4, 3, 5, 4, 3, 2]
   \<and> replay recorder [] (trace (the (run recorder lifecycle (constructed []))))
       = [1, 3, 4, 3, 5, 4, 3, 2]
   \<and> map_option worker (wrapper_Open recorder (constructed [])) = Some [1]
   \<and> run recorder until_drained (constructed []) \<noteq> None
   \<and> owner (the (run recorder until_drained (constructed []))) = AtTerminate
   \<and> worker (the (run recorder until_drained (constructed []))) = [1, 3, 4, 3, 5, 4, 3]
   \<and> map_option worker
         (Join_terminate recorder (the (run recorder until_drained (constructed []))))
       = Some [1, 3, 4, 3, 5, 4, 3, 2]"
proof -
  let ?s = "the (run recorder lifecycle (constructed []))"
  let ?d = "the (run recorder until_drained (constructed []))"
  let ?c = "constructed [] :: (nat list, int) wsys"
  have e: "Extended recorder = Some ((\<lambda>ws. ws @ [1]), (\<lambda>ws. ws @ [2]))"
    by (simp add: recorder_def)
  have r: "run recorder lifecycle (constructed []) = Some ?s"
    by (simp add: recorder_run)
  have o: "owner ?s = Joined" and ws: "worker ?s = [1, 3, 4, 3, 5, 4, 3, 2]"
    by (simp_all add: recorder_run)
  have b: "before EvInitialize (trace ?s) = []"
    by (simp add: recorder_run before_def)
  have rd: "run recorder until_drained (constructed []) = Some ?d"
    by (simp add: until_drained_run)
  have od: "owner ?d = AtTerminate" and wd: "worker ?d = [1, 3, 4, 3, 5, 4, 3]"
    by (simp_all add: until_drained_run)
  have rc: "run recorder [] ?c = Some ?c" by simp
  have oc: "owner ?c = Idle" and wc: "worker ?c = []"
    by (simp_all add: constructed_def)
  from C4_Initialize_Terminate_once [OF r e] o ws
  have x: "count_list (trace ?s) EvInitialize = 1
           \<and> count_list (trace ?s) EvTerminate = 1
           \<and> {EvCloseJobChan, EvMarkClosed, EvCloseReady, EvCloseOutput, EvJoinDrained}
                \<subseteq> set (before EvTerminate (trace ?s))
           \<and> replay recorder [] (trace ?s) = [1, 3, 4, 3, 5, 4, 3, 2]"
    by simp
  from C4_Initialize_Terminate_once [OF rc e] oc wc
  have y: "map_option worker (wrapper_Open recorder ?c) = Some [1]"
    by simp
  from C4_Initialize_Terminate_once [OF rd e] od wd
  have z: "map_option worker (Join_terminate recorder ?d) = Some [1, 3, 4, 3, 5, 4, 3, 2]"
    by simp
  from x y z e r o ws b rd od wd show ?thesis by blast
qed

text \<open>
  C5: when the loop leaves the range it closes \<^verbatim>\<open>readyChan\<close> and \<^verbatim>\<open>outputChan\<close> and
  is gone, and it is gone only with both closed. \<^verbatim>\<open>Join\<close> leaves its drain loop only
  then, and the receive on \<^verbatim>\<open>outputChan\<close> leaves it exactly when both receives of the
  round report a closed channel. Once the loop has exited, \<^verbatim>\<open>Join\<close> needs no partner:
  from its first receive (the loop exited before \<^verbatim>\<open>Join\<close> was called) it leaves the
  drain loop in two receives, from the middle of a round in one or three.
\<close>

theorem C5_exit_closes_Join_drains:
  assumes "run w ms (constructed ws) = Some s"
  shows "(pc s = AtCloseReady \<longrightarrow>
            map_option (\<lambda>t. (pc t, readyChan t, outputChan t)) (run w [MvLoop, MvLoop] s)
              = Some (Exited, ChanClosed, ChanClosed))
         \<and> (pc s = Exited \<longrightarrow> readyChan s = ChanClosed \<and> outputChan s = ChanClosed)
         \<and> (owner s = AtTerminate \<or> owner s = Joined \<longrightarrow>
               pc s = Exited \<and> readyChan s = ChanClosed \<and> outputChan s = ChanClosed)
         \<and> (\<forall>readyOpen. owner s = AtJoinOutput readyOpen \<longrightarrow>
               (map_option owner (Join_recv_output s) = Some AtTerminate)
                 = (\<not> readyOpen \<and> outputChan s = ChanClosed))
         \<and> (pc s = Exited \<and> owner s = AtJoinReady \<longrightarrow>
               map_option owner (run w [MvJoinRecvReady, MvJoinRecvOutput] s) = Some AtTerminate)
         \<and> (pc s = Exited \<and> owner s = AtJoinOutput False \<longrightarrow>
               map_option owner (run w [MvJoinRecvOutput] s) = Some AtTerminate)
         \<and> (pc s = Exited \<and> owner s = AtJoinOutput True \<longrightarrow>
               map_option owner (run w [MvJoinRecvOutput, MvJoinRecvReady, MvJoinRecvOutput] s)
                 = Some AtTerminate)"
proof -
  from coherent_run [OF assms] have c: "coherent s" .
  have a: "pc s = Exited \<longrightarrow> readyChan s = ChanClosed \<and> outputChan s = ChanClosed"
    using c by (cases "owner s") (auto simp: coherent_def)
  have b: "owner s = AtTerminate \<or> owner s = Joined \<longrightarrow>
             pc s = Exited \<and> readyChan s = ChanClosed \<and> outputChan s = ChanClosed"
    using c by (cases "owner s") (auto simp: coherent_def)
  from a b Loop_exit_closes [OF c] Join_leaves_exactly [OF c] Join_after_exit [OF c]
  show ?thesis by blast
qed

theorem C5_exit_closes_Join_drains_witness:
  "run doubler exit_before_join (constructed ()) \<noteq> None
   \<and> pc (the (run doubler exit_before_join (constructed ()))) = Exited
   \<and> owner (the (run doubler exit_before_join (constructed ()))) = AtJoinReady
   \<and> readyChan (the (run doubler exit_before_join (constructed ()))) = ChanClosed
   \<and> outputChan (the (run doubler exit_before_join (constructed ()))) = ChanClosed
   \<and> map_option owner
         (run doubler [MvJoinRecvReady, MvJoinRecvOutput]
            (the (run doubler exit_before_join (constructed ())))) = Some AtTerminate
   \<and> run doubler leaving (constructed ()) \<noteq> None
   \<and> pc (the (run doubler leaving (constructed ()))) = AtCloseReady
   \<and> map_option (\<lambda>t. (pc t, readyChan t, outputChan t))
         (run doubler [MvLoop, MvLoop] (the (run doubler leaving (constructed ()))))
       = Some (Exited, ChanClosed, ChanClosed)
   \<and> run doubler mid_drain (constructed ()) \<noteq> None
   \<and> owner (the (run doubler mid_drain (constructed ()))) = AtJoinOutput True
   \<and> map_option owner (Join_recv_output (the (run doubler mid_drain (constructed ()))))
       \<noteq> Some AtTerminate
   \<and> map_option owner
         (run doubler [MvJoinRecvOutput, MvJoinRecvReady, MvJoinRecvOutput]
            (the (run doubler mid_drain (constructed ())))) = Some AtTerminate"
proof -
  let ?s = "the (run doubler exit_before_join (constructed ()))"
  let ?l = "the (run doubler leaving (constructed ()))"
  let ?m = "the (run doubler mid_drain (constructed ()))"
  have r: "run doubler exit_before_join (constructed ()) = Some ?s"
    by (simp add: exit_before_join_run)
  have p: "pc ?s = Exited" and o: "owner ?s = AtJoinReady"
    by (simp_all add: exit_before_join_run)
  have rl: "run doubler leaving (constructed ()) = Some ?l"
    by (simp add: leaving_run)
  have pl: "pc ?l = AtCloseReady"
    by (simp add: leaving_run)
  have rm: "run doubler mid_drain (constructed ()) = Some ?m"
    by (simp add: mid_drain_run)
  have pm: "pc ?m = Exited" and om: "owner ?m = AtJoinOutput True"
    by (simp_all add: mid_drain_run)
  from C5_exit_closes_Join_drains [OF r] p o
  have a: "readyChan ?s = ChanClosed \<and> outputChan ?s = ChanClosed
           \<and> map_option owner (run doubler [MvJoinRecvReady, MvJoinRecvOutput] ?s)
               = Some AtTerminate"
    by blast
  from C5_exit_closes_Join_drains [OF rl] pl
  have b: "map_option (\<lambda>t. (pc t, readyChan t, outputChan t)) (run doubler [MvLoop, MvLoop] ?l)
             = Some (Exited, ChanClosed, ChanClosed)"
    by blast
  from C5_exit_closes_Join_drains [OF rm] pm om
  have c: "map_option owner (Join_recv_output ?m) \<noteq> Some AtTerminate
           \<and> map_option owner
                (run doubler [MvJoinRecvOutput, MvJoinRecvReady, MvJoinRecvOutput] ?m)
               = Some AtTerminate"
    by blast
  from a b c r p o rl pl rm om show ?thesis by blast
qed

text \<open>
  C6: \<^verbatim>\<open>Interrupt\<close> calls the worker's \<^verbatim>\<open>Interrupt\<close> method, once, exactly when the
  worker implements the interruptable interface: then the worker's state is what the
  method makes of it, one call is added to the history, and nothing else changes. When
  the worker does not implement it, the wrapper, the worker and the history are left
  as they were.
\<close>

theorem C6_Interrupt_forwards:
  "(Interruptable w = Some f \<longrightarrow>
      wrapper_Interrupt w s = s\<lparr>worker := f (worker s), trace := trace s @ [EvInterrupt]\<rparr>
      \<and> count_list (trace (wrapper_Interrupt w s)) EvInterrupt
          = Suc (count_list (trace s) EvInterrupt))
   \<and> (Interruptable w = None \<longrightarrow> wrapper_Interrupt w s = s)
   \<and> (EvInterrupt \<in> set (trace (wrapper_Interrupt w s)) - set (trace s)
        \<longrightarrow> Interruptable w \<noteq> None)"
  by (cases "Interruptable w") (auto simp: wrapper_Interrupt_def)

theorem C6_Interrupt_witness:
  "wrapper_Interrupt doubler (constructed ())
     = (constructed ())\<lparr>worker := (), trace := [EvInterrupt]\<rparr>
   \<and> wrapper_Interrupt sleeper (constructed ()) = constructed ()"
  using C6_Interrupt_forwards [of doubler id "constructed ()"]
        C6_Interrupt_forwards [of sleeper id "constructed ()"]
  by (simp add: doubler_def sleeper_def constructed_def)

section \<open>Facts about the connection pool\<close>

subsection \<open>A closed pool stays closed\<close>

lemma shut_pool_Close: "shut (fst (snd (pool_Close p wd)))"
  by (simp add: pool_Close_def shut_def split: option.splits prod.splits)

lemma shut_Get: "shut p \<Longrightarrow> Get p wd = (Returns (None, Some ErrClosed), p, wd)"
  by (simp add: Get_def getConns_def shut_def)

lemma shut_put: "shut p \<Longrightarrow> fst (snd (put conn p wd)) = p"
  by (simp add: put_def shut_def split: option.splits prod.splits)

lemma shut_Close_again: "shut p \<Longrightarrow> pool_Close p wd = (Returns (), p, wd)"
  by (simp add: pool_Close_def shut_def)

lemma shut_PoolConn_Close: "shut p \<Longrightarrow> fst (snd (PoolConn_Close x p wd)) = p"
  by (simp add: PoolConn_Close_def shut_put split: option.splits prod.splits)

lemma shut_apply_op: "shut (fst st) \<Longrightarrow> fst (apply_op x st) = fst st"
  by (cases st; cases x)
     (simp_all add: shut_Get shut_put shut_Close_again shut_PoolConn_Close)

lemma shut_apply_ops: "shut (fst st) \<Longrightarrow> fst (apply_ops xs st) = fst st"
  by (induction xs arbitrary: st) (simp_all add: shut_apply_op)

subsection \<open>The buffer stays within its capacity\<close>

lemma closeAll_no_block: "fst (closeAll xs wd) \<noteq> Blocks"
  by (induction xs wd rule: closeAll.induct) simp_all

lemma pool_Close_no_block: "fst (pool_Close p wd) \<noteq> Blocks"
proof (cases "conns p")
  case None
  then show ?thesis by (simp add: pool_Close_def)
next
  case (Some ch)
  obtain r wd' where c: "closeAll (buf ch) wd = (r, wd')"
    by (metis prod.exhaust)
  with closeAll_no_block [of "buf ch" wd] have "r \<noteq> Blocks" by simp
  with Some c show ?thesis by (simp add: pool_Close_def)
qed

lemma fill_result:
  "fill n c wd = (Returns (Some p, None), wd') \<Longrightarrow> conns c = Some ch \<Longrightarrow>
     \<exists>ch'. conns p = Some ch' \<and> capacity ch' = capacity ch
            \<and> length (buf ch') = length (buf ch) + n"
proof (induction n arbitrary: c wd ch)
  case 0
  then show ?case by simp
next
  case (Suc n)
  from Suc.prems obtain f conn fs' where
    f: "factory c = Some f" and r: "f (fstate wd) = ((conn, None), fs')"
    and lt: "length (buf ch) < capacity ch"
    and rec: "fill n (c\<lparr>conns := Some (ch\<lparr>buf := buf ch @ [conn]\<rparr>)\<rparr>) (wd\<lparr>fstate := fs'\<rparr>)
                = (Returns (Some p, None), wd')"
    by (auto split: option.splits prod.splits if_splits outcome.splits)
  from Suc.IH [OF rec, of "ch\<lparr>buf := buf ch @ [conn]\<rparr>"] show ?case by auto
qed

lemma fill_no_block:
  "conns c = Some ch \<Longrightarrow> length (buf ch) + n \<le> capacity ch \<Longrightarrow> fst (fill n c wd) \<noteq> Blocks"
proof (induction n arbitrary: c wd ch)
  case 0
  then show ?case by simp
next
  case (Suc n)
  have lt: "length (buf ch) < capacity ch" using Suc.prems(2) by simp
  show ?case
  proof (cases "factory c")
    case None
    then show ?thesis by simp
  next
    case (Some f)
    obtain conn err fs' where r: "f (fstate wd) = ((conn, err), fs')"
      by (metis prod.exhaust)
    show ?thesis
    proof (cases err)
      case None
      have "fst (fill n (c\<lparr>conns := Some (ch\<lparr>buf := buf ch @ [conn]\<rparr>)\<rparr>) (wd\<lparr>fstate := fs'\<rparr>))
              \<noteq> Blocks"
        by (rule Suc.IH [of _ "ch\<lparr>buf := buf ch @ [conn]\<rparr>"]) (use Suc.prems in simp_all)
      with Some r None lt Suc.prems(1) show ?thesis by simp
    next
      case (Some e)
      obtain o1 c1 w1 where pc: "pool_Close c (wd\<lparr>fstate := fs'\<rparr>) = (o1, c1, w1)"
        by (metis prod.exhaust)
      with pool_Close_no_block [of c "wd\<lparr>fstate := fs'\<rparr>"] have "o1 \<noteq> Blocks" by simp
      with \<open>factory c = Some f\<close> r Some pc show ?thesis
        by (cases o1) simp_all
    qed
  qed
qed

lemma within_Get: "within m p \<Longrightarrow> within m (fst (snd (Get p wd)))"
  by (auto simp: within_def Get_def getConns_def split: option.splits list.splits prod.splits)

lemma within_put: "within m p \<Longrightarrow> within m (fst (snd (put conn p wd)))"
  by (auto simp: within_def put_def split: option.splits prod.splits)

lemma within_PoolConn_Close: "within m p \<Longrightarrow> within m (fst (snd (PoolConn_Close x p wd)))"
  by (simp add: PoolConn_Close_def within_put split: option.splits prod.splits)

lemma within_pool_Close: "within m (fst (snd (pool_Close p wd)))"
  by (simp add: within_def pool_Close_def split: option.splits prod.splits)

lemma within_apply_op: "within m (fst st) \<Longrightarrow> within m (fst (apply_op x st))"
  by (cases st; cases x)
     (simp_all add: within_Get within_put within_PoolConn_Close within_pool_Close)

lemma within_apply_ops: "within m (fst st) \<Longrightarrow> within m (fst (apply_ops xs st))"
  by (induction xs arbitrary: st) (simp_all add: within_apply_op)

lemma within_Len: "within m p \<Longrightarrow> Len p \<le> int m"
  by (simp add: within_def Len_def getConns_def split: option.splits)

lemma put_full:
  "conns q = Some ch \<Longrightarrow> capacity ch \<le> length (buf ch) \<Longrightarrow>
     put (Some c) q wd = (Returns (closeErr wd c), q, wd\<lparr>closedConns := closedConns wd @ [c]\<rparr>)"
  by (simp add: put_def conn_Close_def)

lemma NewChannelPool_result:
  assumes "NewChannelPool initialCap maxCap fac wd = (Returns (Some p, None), wd')"
  shows "0 \<le> initialCap \<and> initialCap \<le> maxCap \<and> 0 < maxCap
         \<and> (\<exists>ch. conns p = Some ch \<and> capacity ch = nat maxCap
                  \<and> length (buf ch) = nat initialCap)"
proof -
  from assms have v: "0 \<le> initialCap \<and> initialCap \<le> maxCap \<and> 0 < maxCap"
    by (auto simp: NewChannelPool_def split: if_splits)
  with assms have
    "fill (nat initialCap) \<lparr>conns = Some \<lparr>buf = [], capacity = nat maxCap\<rparr>, factory = fac\<rparr> wd
       = (Returns (Some p, None), wd')"
    by (simp add: NewChannelPool_def)
  from fill_result [OF this, of "\<lparr>buf = [], capacity = nat maxCap\<rparr>"] v show ?thesis by simp
qed

lemma NewChannelPool_no_block: "fst (NewChannelPool initialCap maxCap fac wd) \<noteq> Blocks"
proof (cases "initialCap < 0 \<or> maxCap \<le> 0 \<or> initialCap > maxCap")
  case True
  then show ?thesis by (simp add: NewChannelPool_def)
next
  case False
  have "fst (fill (nat initialCap)
               \<lparr>conns = Some \<lparr>buf = [], capacity = nat maxCap\<rparr>, factory = fac\<rparr> wd) \<noteq> Blocks"
    by (rule fill_no_block [of _ "\<lparr>buf = [], capacity = nat maxCap\<rparr>"])
       (use False in \<open>simp_all add: nat_mono\<close>)
  with False show ?thesis by (simp add: NewChannelPool_def)
qed

lemma new_pool_run:
  "NewChannelPool 2 3 (Some counting) quiet
     = (Returns (Some \<lparr>conns = Some \<lparr>buf = [Some 0, Some 1], capacity = 3\<rparr>,
                       factory = Some counting\<rparr>, None),
        quiet\<lparr>fstate := 2\<rparr>)"
  by (simp add: NewChannelPool_def counting_def quiet_def numeral_2_eq_2)

section \<open>The claims about the connection pool\<close>

text \<open>
  C7: a nil connection handed back is rejected on the spot: \<^verbatim>\<open>put(nil)\<close> returns the
  error "connection is nil. rejecting" and leaves the pool and every connection as they
  were, and so does \<^verbatim>\<open>Close\<close> on a \<^verbatim>\<open>PoolConn\<close> that holds nil. A \<^verbatim>\<open>PoolConn\<close>
  marked unusable is closed rather than pooled: its connection's \<^verbatim>\<open>Close\<close> is called
  and the pool keeps what it had (with nil inside there is nothing to close).
\<close>

theorem C7_invalid_not_pooled:
  "put None p wd = (Returns (Some ErrNilConn), p, wd)
   \<and> PoolConn_Close \<lparr>Conn = None, unusable = False\<rparr> p wd = (Returns (Some ErrNilConn), p, wd)
   \<and> (unusable x \<and> Conn x = Some c \<longrightarrow>
         PoolConn_Close x p wd
           = (Returns (closeErr wd c), p, wd\<lparr>closedConns := closedConns wd @ [c]\<rparr>))
   \<and> (unusable x \<and> Conn x = None \<longrightarrow> PoolConn_Close x p wd = (Returns None, p, wd))"
  by (simp add: put_def PoolConn_Close_def conn_Close_def)

theorem C7_invalid_not_pooled_witness:
  "put None pool5 quiet = (Returns (Some ErrNilConn), pool5, quiet)
   \<and> PoolConn_Close (MarkUnusable (wrapConn (Some 8))) pool5 quiet
       = (Returns None, pool5, quiet\<lparr>closedConns := [8]\<rparr>)
   \<and> PoolConn_Close (MarkUnusable (wrapConn None)) pool5 quiet = (Returns None, pool5, quiet)"
  using C7_invalid_not_pooled [of pool5 quiet "MarkUnusable (wrapConn (Some 8))" 8]
        C7_invalid_not_pooled [of pool5 quiet "MarkUnusable (wrapConn None)" 8]
  by (simp add: MarkUnusable_def wrapConn_def quiet_def)

text \<open>
  C8: after \<^verbatim>\<open>Close\<close> (however that call ended), and after whatever calls follow it,
  \<^verbatim>\<open>Get\<close> returns no connection and \<^verbatim>\<open>ErrClosed\<close>, and a further \<^verbatim>\<open>Close\<close> returns
  without a panic and changes neither the pool nor the world.
\<close>

theorem C8_after_Close:
  assumes "pool_Close p wd = (r, p1, wd1)"
    and "apply_ops xs (p1, wd1) = (p2, wd2)"
  shows "Get p2 wd2 = (Returns (None, Some ErrClosed), p2, wd2)
         \<and> pool_Close p2 wd2 = (Returns (), p2, wd2)
         \<and> p2 = p1 \<and> conns p1 = None"
proof -
  from shut_pool_Close [of p wd] assms(1) have s1: "shut p1" by simp
  from shut_apply_ops [of "(p1, wd1)" xs] s1 assms(2) have "p2 = p1" by simp
  with s1 show ?thesis by (simp add: shut_Get shut_Close_again) (simp add: shut_def)
qed


theorem C8_after_Close_witness:
  "pool_Close pool5 quiet
     = (Returns (), \<lparr>conns = None, factory = None\<rparr>, quiet\<lparr>closedConns := [5]\<rparr>)
   \<and> apply_ops [OpGet, OpPut (Some 9), OpClose, OpLen]
        (\<lparr>conns = None, factory = None\<rparr>, quiet\<lparr>closedConns := [5]\<rparr>)
       = (\<lparr>conns = None, factory = None\<rparr>, quiet\<lparr>closedConns := [5, 9]\<rparr>)
   \<and> Get \<lparr>conns = None, factory = None\<rparr> (quiet\<lparr>closedConns := [5, 9]\<rparr>)
       = (Returns (None, Some ErrClosed), \<lparr>conns = None, factory = None\<rparr>,
          quiet\<lparr>closedConns := [5, 9]\<rparr>)
   \<and> pool_Close \<lparr>conns = None, factory = None\<rparr> (quiet\<lparr>closedConns := [5, 9]\<rparr>)
       = (Returns (), \<lparr>conns = None, factory = None\<rparr>, quiet\<lparr>closedConns := [5, 9]\<rparr>)"
proof -
  have a: "pool_Close pool5 quiet
     = (Returns (), \<lparr>conns = None, factory = None\<rparr>, quiet\<lparr>closedConns := [5]\<rparr>)"
    by (simp add: pool_Close_def pool5_def quiet_def conn_Close_def)
  have b: "apply_ops [OpGet, OpPut (Some 9), OpClose, OpLen]
        (\<lparr>conns = None, factory = None\<rparr>, quiet\<lparr>closedConns := [5]\<rparr>)
       = (\<lparr>conns = None, factory = None\<rparr>, quiet\<lparr>closedConns := [5, 9]\<rparr>)"
    by (simp add: Get_def getConns_def put_def pool_Close_def quiet_def conn_Close_def)
  from C8_after_Close [OF a b] a b show ?thesis by simp
qed

text \<open>
  C9: the pool never stores more than \<^verbatim>\<open>maxCap\<close> connections. When
  \<^verbatim>\<open>NewChannelPool\<close> returns a pool, \<open>0 \<le> initialCap \<le> maxCap\<close> and \<open>0 < maxCap\<close>
  hold, the buffer has capacity \<^verbatim>\<open>maxCap\<close> and holds \<^verbatim>\<open>initialCap\<close> values, and
  after any calls \<^verbatim>\<open>Len\<close> is at most \<^verbatim>\<open>maxCap\<close>. Other capacities give the error
  "invalid capacity settings" and no pool. The sends that fill the buffer never block.
  \<^verbatim>\<open>put\<close> on a full buffer closes the connection and stores nothing.
\<close>

theorem C9_never_more_than_maxCap:
  "(NewChannelPool initialCap maxCap fac wd = (Returns (Some p, None), wd') \<longrightarrow>
      0 \<le> initialCap \<and> initialCap \<le> maxCap \<and> 0 < maxCap
      \<and> (\<exists>ch. conns p = Some ch \<and> capacity ch = nat maxCap
               \<and> length (buf ch) = nat initialCap)
      \<and> (\<forall>xs. Len (fst (apply_ops xs (p, wd'))) \<le> maxCap))
   \<and> (initialCap < 0 \<or> maxCap \<le> 0 \<or> initialCap > maxCap \<longrightarrow>
        NewChannelPool initialCap maxCap fac wd = (Returns (None, Some ErrInvalidCapacity), wd))
   \<and> fst (NewChannelPool initialCap maxCap fac wd) \<noteq> Blocks
   \<and> (conns q = Some ch \<and> capacity ch \<le> length (buf ch) \<longrightarrow>
        put (Some c) q wd
          = (Returns (closeErr wd c), q, wd\<lparr>closedConns := closedConns wd @ [c]\<rparr>))"
proof -
  have a: "0 \<le> initialCap \<and> initialCap \<le> maxCap \<and> 0 < maxCap
           \<and> (\<exists>ch. conns p = Some ch \<and> capacity ch = nat maxCap
                    \<and> length (buf ch) = nat initialCap)
           \<and> (\<forall>xs. Len (fst (apply_ops xs (p, wd'))) \<le> maxCap)"
    if n: "NewChannelPool initialCap maxCap fac wd = (Returns (Some p, None), wd')"
  proof -
    from NewChannelPool_result [OF n] have
      r: "0 \<le> initialCap \<and> initialCap \<le> maxCap \<and> 0 < maxCap
          \<and> (\<exists>ch. conns p = Some ch \<and> capacity ch = nat maxCap
                   \<and> length (buf ch) = nat initialCap)" .
    then have w: "within (nat maxCap) p" by (auto simp: within_def)
    have "Len (fst (apply_ops xs (p, wd'))) \<le> maxCap" for xs
      using within_Len [OF within_apply_ops [of "nat maxCap" "(p, wd')" xs]] w r by simp
    with r show ?thesis by blast
  qed
  have b: "initialCap < 0 \<or> maxCap \<le> 0 \<or> initialCap > maxCap \<longrightarrow>
        NewChannelPool initialCap maxCap fac wd = (Returns (None, Some ErrInvalidCapacity), wd)"
    by (simp add: NewChannelPool_def)
  from a b NewChannelPool_no_block [of initialCap maxCap fac wd] put_full [of q ch c wd]
  show ?thesis by blast
qed

theorem C9_never_more_than_maxCap_witness:
  "NewChannelPool 2 3 (Some counting) quiet
     = (Returns (Some \<lparr>conns = Some \<lparr>buf = [Some 0, Some 1], capacity = 3\<rparr>,
                       factory = Some counting\<rparr>, None),
        quiet\<lparr>fstate := 2\<rparr>)
   \<and> Len (fst (apply_ops [OpPut (Some 7), OpPut (Some 8), OpPut (Some 9)]
                (\<lparr>conns = Some \<lparr>buf = [Some 0, Some 1], capacity = 3\<rparr>,
                    factory = Some counting\<rparr>, quiet\<lparr>fstate := 2\<rparr>))) \<le> 3
   \<and> NewChannelPool 3 2 (Some counting) quiet = (Returns (None, Some ErrInvalidCapacity), quiet)
   \<and> put (Some 9) (pool5\<lparr>conns := Some \<lparr>buf = [Some 5, Some 6], capacity = 2\<rparr>\<rparr>) quiet
       = (Returns None, pool5\<lparr>conns := Some \<lparr>buf = [Some 5, Some 6], capacity = 2\<rparr>\<rparr>,
          quiet\<lparr>closedConns := [9]\<rparr>)"
proof -
  let ?p = "\<lparr>conns = Some \<lparr>buf = [Some 0, Some 1], capacity = 3\<rparr>, factory = Some counting\<rparr>"
  let ?q = "pool5\<lparr>conns := Some \<lparr>buf = [Some 5, Some 6], capacity = 2\<rparr>\<rparr>"
  note a = C9_never_more_than_maxCap
             [of 2 3 "Some counting" quiet ?p "quiet\<lparr>fstate := 2\<rparr>" ?q
                 "\<lparr>buf = [Some 5, Some 6], capacity = 2\<rparr>" 9]
  note b = C9_never_more_than_maxCap [of 3 2 "Some counting" quiet]
  from a new_pool_run have "\<forall>xs. Len (fst (apply_ops xs (?p, quiet\<lparr>fstate := 2\<rparr>))) \<le> 3"
    by simp
  then have l: "Len (fst (apply_ops [OpPut (Some 7), OpPut (Some 8), OpPut (Some 9)]
                            (?p, quiet\<lparr>fstate := 2\<rparr>))) \<le> 3"
    by (rule spec)
  from a have f: "put (Some 9) ?q quiet = (Returns None, ?q, quiet\<lparr>closedConns := [9]\<rparr>)"
    by (simp add: quiet_def)
  from b have i: "NewChannelPool 3 2 (Some counting) quiet
                    = (Returns (None, Some ErrInvalidCapacity), quiet)"
    by simp
  from new_pool_run l f i show ?thesis by blast
qed





end
